theory Spec2Isabelle
  imports Complex_Main "HOL-Library.Word"
begin

section \<open>Strings\<close>

text \<open>
  A JavaScript string is modelled as the list of its code points, which is how the regular
  expressions carrying the \<^verbatim>\<open>u\<close> flag in \<^verbatim>\<open>TextDiff.tsx\<close> read it. The regular
  expressions without that flag only name characters of the Basic Multilingual Plane, for
  which a code unit and a code point are the same thing.
\<close>

type_synonym jsstring = "nat list"

text \<open>An ASCII literal of the source as a string of code points.\<close>

definition lit :: "string \<Rightarrow> jsstring" where
  "lit s = map of_char s"

section \<open>The diff engine of \<^verbatim>\<open>src/pages/text/TextDiff.tsx\<close>\<close>

subsection \<open>Data\<close>

text \<open>\<^verbatim>\<open>type DiffType = 'added' | 'removed' | 'unchanged'\<close>\<close>

datatype DiffType = added | removed | unchanged

text \<open>
  \<^verbatim>\<open>computeDiff\<close> is generic in \<^verbatim>\<open>T extends { diff: string }\<close>: any record with a
  \<open>diff\<close> field. \<^verbatim>\<open>Token\<close> is the instance the page uses.
\<close>

record Keyed =
  diff :: jsstring

record Token = Keyed +
  render :: jsstring

text \<open>\<^verbatim>\<open>{ type: DiffType; oldItem?: T; newItem?: T }\<close>: an absent field is \<open>None\<close>.\<close>

record 'a DiffOp =
  type :: DiffType
  oldItem :: "'a option"
  newItem :: "'a option"

subsection \<open>The table of LCS lengths (lines 110 to 119)\<close>

text \<open>
  \<^verbatim>\<open>Array.from({ length: n + 1 }, () => new Int32Array(m + 1))\<close>: \<open>n + 1\<close> rows of
  \<open>m + 1\<close> zeros. A cell holds the length of a common subsequence, which is at most
  \<open>min n m\<close>, so the 32-bit cells never wrap and are modelled as \<open>int\<close>.
\<close>

definition dp_init :: "nat \<Rightarrow> nat \<Rightarrow> int list list" where
  "dp_init n m = replicate (n + 1) (replicate (m + 1) 0)"

text \<open>The body of the inner loop: the value stored in \<^verbatim>\<open>dp[i][j]\<close>.\<close>

definition dp_cell ::
  "('a Keyed_scheme) list \<Rightarrow> ('a Keyed_scheme) list \<Rightarrow> int list list \<Rightarrow> nat \<Rightarrow> nat \<Rightarrow> int" where
  "dp_cell oldItems newItems dp i j =
     (if diff (oldItems ! (i - 1)) = diff (newItems ! (j - 1))
      then dp ! (i - 1) ! (j - 1) + 1
      else max (dp ! (i - 1) ! j) (dp ! i ! (j - 1)))"

text \<open>The inner loop \<^verbatim>\<open>for (let j = 1; j <= m; j++)\<close> for one \<open>i\<close>.\<close>

definition dp_row ::
  "('a Keyed_scheme) list \<Rightarrow> ('a Keyed_scheme) list \<Rightarrow> int list list \<Rightarrow> nat \<Rightarrow> int list list" where
  "dp_row oldItems newItems dp i =
     foldl (\<lambda>d j. d[i := (d ! i)[j := dp_cell oldItems newItems d i j]]) dp
       [1 ..< length newItems + 1]"

text \<open>The outer loop \<^verbatim>\<open>for (let i = 1; i <= n; i++)\<close>.\<close>

definition dp_table ::
  "('a Keyed_scheme) list \<Rightarrow> ('a Keyed_scheme) list \<Rightarrow> int list list" where
  "dp_table oldItems newItems =
     foldl (dp_row oldItems newItems) (dp_init (length oldItems) (length newItems))
       [1 ..< length oldItems + 1]"

subsection \<open>The backtrack (lines 121 to 135)\<close>

text \<open>
  The \<^verbatim>\<open>while (i > 0 || j > 0)\<close> loop. Its state is \<open>i\<close>, \<open>j\<close> and \<open>result\<close>;
  \<^verbatim>\<open>result.unshift(x)\<close> puts \<open>x\<close> in front. The three branches are in the order of
  the source. Every step lowers \<open>i + j\<close>, so the loop ends.
\<close>

function backtrack ::
  "('a Keyed_scheme) list \<Rightarrow> ('a Keyed_scheme) list \<Rightarrow> int list list \<Rightarrow> nat \<Rightarrow> nat \<Rightarrow>
   ('a Keyed_scheme) DiffOp list \<Rightarrow> ('a Keyed_scheme) DiffOp list" where
  "backtrack oldItems newItems dp i j result =
     (if i > 0 \<or> j > 0 then
        if i > 0 \<and> j > 0 \<and> diff (oldItems ! (i - 1)) = diff (newItems ! (j - 1)) then
          backtrack oldItems newItems dp (i - 1) (j - 1)
            (\<lparr>type = unchanged, oldItem = Some (oldItems ! (i - 1)),
              newItem = Some (newItems ! (j - 1))\<rparr> # result)
        else if j > 0 \<and> (i = 0 \<or> dp ! i ! (j - 1) \<ge> dp ! (i - 1) ! j) then
          backtrack oldItems newItems dp i (j - 1)
            (\<lparr>type = added, oldItem = None, newItem = Some (newItems ! (j - 1))\<rparr> # result)
        else
          backtrack oldItems newItems dp (i - 1) j
            (\<lparr>type = removed, oldItem = Some (oldItems ! (i - 1)), newItem = None\<rparr> # result)
      else result)"
  by pat_completeness auto
termination
  by (relation "measure (\<lambda>(oldItems, newItems, dp, i, j, result). i + j)") auto

declare backtrack.simps [simp del]

text \<open>\<^verbatim>\<open>computeDiff(oldItems, newItems)\<close>: fill the table, then backtrack from \<open>(n, m)\<close>.\<close>

definition computeDiff ::
  "('a Keyed_scheme) list \<Rightarrow> ('a Keyed_scheme) list \<Rightarrow> ('a Keyed_scheme) DiffOp list" where
  "computeDiff oldItems newItems =
     backtrack oldItems newItems (dp_table oldItems newItems)
       (length oldItems) (length newItems) []"

subsection \<open>The two sides of an edit script\<close>

text \<open>
  The old side of a script is what lines 189 and 190 of the source read off it,
  \<^verbatim>\<open>.filter(d => d.type !== 'added').map(d => d.oldItem)\<close>: the old items of the
  unchanged and removed operations, in order. The new side is its mirror image (lines 196
  and 197). An operation that lacks the item it should carry contributes nothing.
\<close>

definition oldSide :: "'a DiffOp list \<Rightarrow> 'a list" where
  "oldSide ops = List.map_filter (\<lambda>d. if type d \<noteq> added then oldItem d else None) ops"

definition newSide :: "'a DiffOp list \<Rightarrow> 'a list" where
  "newSide ops = List.map_filter (\<lambda>d. if type d \<noteq> removed then newItem d else None) ops"

subsection \<open>The scores of the table\<close>

text \<open>
  The spec names the algorithm: the classic dynamic-programming LCS over the two sequences,
  by key equality. This is its recurrence in the spec's words, on the last items of two
  sequences; it says what a score in the table of the source is (lemma
  \<open>dp_table_lcsScore\<close> below), and the source is compared with it.
\<close>

function lcsScore :: "('a Keyed_scheme) list \<Rightarrow> ('a Keyed_scheme) list \<Rightarrow> int" where
  "lcsScore xs ys =
     (if xs = [] \<or> ys = [] then 0
      else if diff (last xs) = diff (last ys) then lcsScore (butlast xs) (butlast ys) + 1
      else max (lcsScore (butlast xs) ys) (lcsScore xs (butlast ys)))"
  by pat_completeness auto
termination
  by (relation "measure (\<lambda>(xs, ys). length xs + length ys)") (auto simp: length_greater_0_conv [symmetric] simp del: length_greater_0_conv)

declare lcsScore.simps [simp del]

text \<open>
  The invariant of the two loops that fill the table, when the inner loop has written cell
  \<open>(i, j)\<close>: the table has its shape, and row 0, column 0, the rows above \<open>i\<close> and row
  \<open>i\<close> up to column \<open>j\<close> hold the scores of the prefixes.
\<close>

definition tableUpTo ::
  "('a Keyed_scheme) list \<Rightarrow> ('a Keyed_scheme) list \<Rightarrow> nat \<Rightarrow> nat \<Rightarrow> int list list \<Rightarrow> bool" where
  "tableUpTo xs ys i j d \<longleftrightarrow>
     length d = length xs + 1 \<and> (\<forall>r \<le> length xs. length (d ! r) = length ys + 1) \<and>
     (\<forall>r \<le> length xs. \<forall>c \<le> length ys.
        (r = 0 \<or> c = 0 \<or> r < i \<or> (r = i \<and> c \<le> j)) \<longrightarrow>
          d ! r ! c = lcsScore (take r xs) (take c ys))"

section \<open>The tokenizer of \<^verbatim>\<open>src/pages/text/TextDiff.tsx\<close>\<close>

subsection \<open>Settings and the engine's Unicode tables\<close>

text \<open>The \<^verbatim>\<open>settings\<close> state of the page: three independent flags.\<close>

record settings =
  ignoreCase :: bool
  ignorePunctuation :: bool
  ignoreWhitespace :: bool

text \<open>
  Two things the source takes from the JavaScript engine and its Unicode tables, not from
  this repository: \<^verbatim>\<open>String.prototype.toLowerCase\<close> and the character class
  \<^verbatim>\<open>[\p{P}\p{S}]\<close>. They are parameters of the model; every theorem below holds for
  any choice of them.
\<close>

record jsengine =
  toLowerCase :: "jsstring \<Rightarrow> jsstring"
  punctOrSymbol :: "nat \<Rightarrow> bool"

subsection \<open>Character classes of the regular expressions\<close>

text \<open>
  \<^verbatim>\<open>\s\<close>: the white space and line terminator code points of ECMAScript. The same set
  is what \<^verbatim>\<open>String.prototype.trim\<close> strips.
\<close>

definition isSpace :: "nat \<Rightarrow> bool" where
  "isSpace c \<longleftrightarrow>
     c = 0x09 \<or> c = 0x0a \<or> c = 0x0b \<or> c = 0x0c \<or> c = 0x0d \<or> c = 0x20 \<or> c = 0xa0 \<or>
     c = 0x1680 \<or> (0x2000 \<le> c \<and> c \<le> 0x200a) \<or> c = 0x2028 \<or> c = 0x2029 \<or>
     c = 0x202f \<or> c = 0x205f \<or> c = 0x3000 \<or> c = 0xfeff"

text \<open>\<^verbatim>\<open>\w\<close> (without the \<^verbatim>\<open>i\<close> flag): \<^verbatim>\<open>[A-Za-z0-9_]\<close>.\<close>

definition isWord :: "nat \<Rightarrow> bool" where
  "isWord c \<longleftrightarrow>
     (0x30 \<le> c \<and> c \<le> 0x39) \<or> (0x41 \<le> c \<and> c \<le> 0x5a) \<or> c = 0x5f \<or>
     (0x61 \<le> c \<and> c \<le> 0x7a)"

text \<open>\<^verbatim>\<open>[\u4e00-\u9fa5]\<close>\<close>

definition isCJK :: "nat \<Rightarrow> bool" where
  "isCJK c \<longleftrightarrow> 0x4e00 \<le> c \<and> c \<le> 0x9fa5"

text \<open>\<^verbatim>\<open>[\w']\<close>\<close>

definition isWordOrApostrophe :: "nat \<Rightarrow> bool" where
  "isWordOrApostrophe c \<longleftrightarrow> isWord c \<or> c = 0x27"

subsection \<open>\<^verbatim>\<open>getDiffKey\<close> (lines 45 to 71)\<close>

text \<open>
  Step 1 of \<^verbatim>\<open>getDiffKey\<close>: the two \<^verbatim>\<open>replace\<close> calls, in their order. The first
  maps \<^verbatim>\<open>[\uff01-\uff5e]\<close> down by \<^verbatim>\<open>0xfee0\<close>, the second maps \<^verbatim>\<open>\u3000\<close> to a
  space.
\<close>

definition foldWidth :: "jsstring \<Rightarrow> jsstring" where
  "foldWidth key =
     map (\<lambda>c. if c = 0x3000 then 0x20 else c)
       (map (\<lambda>ch. if 0xff01 \<le> ch \<and> ch \<le> 0xff5e then ch - 0xfee0 else ch) key)"

text \<open>\<^verbatim>\<open>String.prototype.trim\<close>: white space is stripped from both ends.\<close>

definition trim :: "jsstring \<Rightarrow> jsstring" where
  "trim s = rev (dropWhile isSpace (rev (dropWhile isSpace s)))"

text \<open>
  \<^verbatim>\<open>key.replace(/[\p{P}\p{S}]/gu, "")\<close> and \<^verbatim>\<open>key.replace(/\s+/g, "")\<close> delete every
  character of the class. The last line of the source is
  \<^verbatim>\<open>return settings.ignoreWhitespace ? key : key.trim()\<close>.
\<close>

definition getDiffKey :: "jsengine \<Rightarrow> settings \<Rightarrow> jsstring \<Rightarrow> jsstring" where
  "getDiffKey E st str =
     (let key = foldWidth str;
          key = (if ignoreCase st then toLowerCase E key else key);
          key = (if ignorePunctuation st then filter (\<lambda>c. \<not> punctOrSymbol E c) key else key);
          key = (if ignoreWhitespace st then filter (\<lambda>c. \<not> isSpace c) key else key)
      in if ignoreWhitespace st then key else trim key)"

subsection \<open>\<^verbatim>\<open>tokenize\<close> (lines 77 to 98)\<close>

text \<open>
  One match of
  \<^verbatim>\<open>/([\u4e00-\u9fa5]|[\w']+|[^\s\w\u4e00-\u9fa5]|\s+)/gu\<close> at the front of a string:
  the matched text and what follows it. The alternatives are tried in the order of the
  source; \<^verbatim>\<open>+\<close> is greedy; the first and the third alternative take one character.
  \<open>None\<close> says that no alternative matches here.
\<close>

fun matchAt :: "jsstring \<Rightarrow> (jsstring \<times> jsstring) option" where
  "matchAt [] = None"
| "matchAt (c # cs) =
     (if isCJK c then Some ([c], cs)
      else if isWordOrApostrophe c then
        Some (takeWhile isWordOrApostrophe (c # cs), dropWhile isWordOrApostrophe (c # cs))
      else if \<not> isSpace c \<and> \<not> isWord c \<and> \<not> isCJK c then Some ([c], cs)
      else if isSpace c then Some (takeWhile isSpace (c # cs), dropWhile isSpace (c # cs))
      else None)"

text \<open>
  \<^verbatim>\<open>text.match(re)\<close> with the \<^verbatim>\<open>g\<close> flag: all matches, left to right. Where the
  expression does not match, the scan moves on by one character, and that character is in
  no match.
\<close>

function matchAll :: "jsstring \<Rightarrow> jsstring list" where
  "matchAll s =
     (if s = [] then []
      else case matchAt s of
             Some (t, rest) \<Rightarrow> t # matchAll rest
           | None \<Rightarrow> matchAll (tl s))"
  by pat_completeness auto
termination
proof (relation "measure length")
  show "wf (measure length)" by simp
next
  fix s :: jsstring and x2 t rest
  assume "s \<noteq> []" and "matchAt s = Some x2" and "(t, rest) = x2"
  then have "matchAt s = Some (t, rest)" by simp
  then have "length rest < length s"
    by (cases s) (auto split: if_splits simp: less_Suc_eq_le length_dropWhile_le)
  then show "(rest, s) \<in> measure length" by simp
next
  fix s :: jsstring
  assume "s \<noteq> []"
  then show "(tl s, s) \<in> measure length" by (cases s) simp_all
qed

declare matchAll.simps [simp del]

text \<open>\<^verbatim>\<open>/^[\p{P}\p{S}]+$/u.test(s)\<close> and \<^verbatim>\<open>/^\s+$/.test(s)\<close>: \<open>s\<close> is not empty and
  all of it is in the class.\<close>

definition pureClass :: "(nat \<Rightarrow> bool) \<Rightarrow> jsstring \<Rightarrow> bool" where
  "pureClass P s \<longleftrightarrow> s \<noteq> [] \<and> list_all P s"

text \<open>
  \<^verbatim>\<open>tokenize(text)\<close>: the empty text gives no token; otherwise every match becomes a
  token with its key, and the filter drops pure punctuation tokens under
  \<^verbatim>\<open>ignorePunctuation\<close> and pure white space tokens under \<^verbatim>\<open>ignoreWhitespace\<close>.
\<close>

definition tokenize :: "jsengine \<Rightarrow> settings \<Rightarrow> jsstring \<Rightarrow> Token list" where
  "tokenize E st text =
     (if text = [] then []
      else filter
             (\<lambda>t. if ignorePunctuation st \<and> pureClass (punctOrSymbol E) (render t) then False
                  else if ignoreWhitespace st \<and> pureClass isSpace (render t) then False
                  else True)
             (map (\<lambda>raw. \<lparr>diff = getDiffKey E st raw, render = raw\<rparr>) (matchAll text)))"

text \<open>
  The characters the third alternative of the expression is there for: neither white
  space, nor a word character, nor an apostrophe, nor a CJK ideograph.
\<close>

definition isOther :: "nat \<Rightarrow> bool" where
  "isOther c \<longleftrightarrow> \<not> isSpace c \<and> \<not> isWord c \<and> c \<noteq> 0x27 \<and> \<not> isCJK c"

subsection \<open>An engine and settings to run the tokenizer on ASCII text\<close>

text \<open>
  The engine's tables cut down to ASCII: lower-casing of \<^verbatim>\<open>A-Z\<close>, and the ASCII
  characters of the Unicode categories P and S. It agrees with a real engine on ASCII text.
\<close>

definition asciiEngine :: jsengine where
  "asciiEngine =
     \<lparr>toLowerCase = map (\<lambda>c. if 0x41 \<le> c \<and> c \<le> 0x5a then c + 0x20 else c),
      punctOrSymbol = (\<lambda>c. (0x21 \<le> c \<and> c \<le> 0x2f) \<or> (0x3a \<le> c \<and> c \<le> 0x40) \<or>
                          (0x5b \<le> c \<and> c \<le> 0x60) \<or> (0x7b \<le> c \<and> c \<le> 0x7e))\<rparr>"

text \<open>The initial settings of the page: all three flags off.\<close>

definition exact :: settings where
  "exact = \<lparr>ignoreCase = False, ignorePunctuation = False, ignoreWhitespace = False\<rparr>"

section \<open>The password generator of \<^verbatim>\<open>src/hooks/usePasswordGenerator.ts\<close>\<close>

subsection \<open>Character sets and options\<close>

record PasswordOptions =
  uppercase :: bool
  lowercase :: bool
  numbers :: bool
  symbols :: bool
  excludeAmbiguous :: bool

text \<open>The five fields of \<^verbatim>\<open>CHARSETS\<close>.\<close>

definition CHARSETS_uppercase :: jsstring where
  "CHARSETS_uppercase = lit ''ABCDEFGHIJKLMNOPQRSTUVWXYZ''"

definition CHARSETS_lowercase :: jsstring where
  "CHARSETS_lowercase = lit ''abcdefghijklmnopqrstuvwxyz''"

definition CHARSETS_numbers :: jsstring where
  "CHARSETS_numbers = lit ''0123456789''"

definition CHARSETS_symbols :: jsstring where
  "CHARSETS_symbols = lit ''!@#$%^&*()_+~`|}{[]:;?><,./-=''"

definition CHARSETS_ambiguous :: jsstring where
  "CHARSETS_ambiguous = lit ''Il1O0''"

subsection \<open>The random source and \<^verbatim>\<open>getSecureRandomInt\<close> (lines 26 to 35)\<close>

text \<open>
  \<^verbatim>\<open>window.crypto.getRandomValues\<close> fills a \<^verbatim>\<open>Uint32Array(1)\<close>. The values it will
  deliver are given to the model as a list of 32-bit words, read from the front; the rest of
  the list is returned with each result.
\<close>

type_synonym tape = "32 word list"

text \<open>
  The \<^verbatim>\<open>do ... while (value >= limit)\<close> loop with
  \<^verbatim>\<open>limit = Math.floor(0xffffffff / max) * max\<close>: a value at or above the limit is
  thrown away and the next one is drawn. The loop has no bound of its own; in the model it
  ends with \<open>None\<close> when the values run out before one is accepted. For \<open>max = 0\<close> the
  limit is \<^verbatim>\<open>NaN\<close> in the source, the first value leaves the loop and the result is
  \<^verbatim>\<open>NaN\<close>, which \<^verbatim>\<open>charAt\<close> reads as index 0; no call of the hook passes 0.
\<close>

fun getSecureRandomInt :: "nat \<Rightarrow> tape \<Rightarrow> (nat \<times> tape) option" where
  "getSecureRandomInt maxN [] = None"
| "getSecureRandomInt maxN (v # tape) =
     (if maxN = 0 then Some (0, tape)
      else if unat v \<ge> (0xffffffff div maxN) * maxN then getSecureRandomInt maxN tape
      else Some (unat v mod maxN, tape))"

subsection \<open>\<^verbatim>\<open>generate\<close> (lines 41 to 87)\<close>

definition isValid :: "PasswordOptions \<Rightarrow> bool" where
  "isValid options \<longleftrightarrow>
     uppercase options \<or> lowercase options \<or> numbers options \<or> symbols options"

text \<open>
  \<^verbatim>\<open>sanitize\<close>: for each ambiguous character, \<^verbatim>\<open>result.split(char).join('')\<close>
  deletes every occurrence of it.
\<close>

definition sanitize :: "PasswordOptions \<Rightarrow> jsstring \<Rightarrow> jsstring" where
  "sanitize options charset =
     (if \<not> excludeAmbiguous options then charset
      else foldl (\<lambda>result char. filter (\<lambda>c. c \<noteq> char) result) charset CHARSETS_ambiguous)"

text \<open>The four \<^verbatim>\<open>pools.push\<close> lines: the active pools, in the order of the source.\<close>

definition pools :: "PasswordOptions \<Rightarrow> jsstring list" where
  "pools options =
     (if uppercase options then [sanitize options CHARSETS_uppercase] else []) @
     (if lowercase options then [sanitize options CHARSETS_lowercase] else []) @
     (if numbers options then [sanitize options CHARSETS_numbers] else []) @
     (if symbols options then [sanitize options CHARSETS_symbols] else [])"

text \<open>\<^verbatim>\<open>s.charAt(k)\<close>: a string of one character, or the empty string out of range.\<close>

definition charAt :: "jsstring \<Rightarrow> nat \<Rightarrow> jsstring" where
  "charAt s k = (if k < length s then [s ! k] else [])"

text \<open>
  \<^verbatim>\<open>pools.map(pool => pool.charAt(getSecureRandomInt(pool.length)))\<close>: one draw per
  pool, left to right.
\<close>

fun pickEach :: "jsstring list \<Rightarrow> tape \<Rightarrow> (jsstring list \<times> tape) option" where
  "pickEach [] tape = Some ([], tape)"
| "pickEach (pool # ps) tape =
     (case getSecureRandomInt (length pool) tape of
        None \<Rightarrow> None
      | Some (k, tape') \<Rightarrow>
          (case pickEach ps tape' of
             None \<Rightarrow> None
           | Some (cs, tape'') \<Rightarrow> Some (charAt pool k # cs, tape'')))"

text \<open>
  \<^verbatim>\<open>for (let i = passwordChars.length; i < targetLength; i++)\<close>, pushing one character
  of the full character set per turn.
\<close>

function fillRemaining ::
  "jsstring \<Rightarrow> int \<Rightarrow> nat \<Rightarrow> jsstring list \<Rightarrow> tape \<Rightarrow> (jsstring list \<times> tape) option" where
  "fillRemaining fullCharset targetLength i passwordChars tape =
     (if int i < targetLength then
        (case getSecureRandomInt (length fullCharset) tape of
           None \<Rightarrow> None
         | Some (k, tape') \<Rightarrow>
             fillRemaining fullCharset targetLength (i + 1)
               (passwordChars @ [charAt fullCharset k]) tape')
      else Some (passwordChars, tape))"
  by pat_completeness auto
termination
  by (relation "measure (\<lambda>(fullCharset, targetLength, i, passwordChars, tape).
        nat (targetLength - int i))") simp_all

declare fillRemaining.simps [simp del]

text \<open>
  The Fisher-Yates loop \<^verbatim>\<open>for (let i = passwordChars.length - 1; i > 0; i--)\<close>. The
  destructuring swap reads both elements before it writes either.
\<close>

function shuffle :: "nat \<Rightarrow> jsstring list \<Rightarrow> tape \<Rightarrow> (jsstring list \<times> tape) option" where
  "shuffle i passwordChars tape =
     (if i > 0 then
        (case getSecureRandomInt (i + 1) tape of
           None \<Rightarrow> None
         | Some (j, tape') \<Rightarrow>
             shuffle (i - 1)
               ((passwordChars[i := passwordChars ! j])[j := passwordChars ! i]) tape')
      else Some (passwordChars, tape))"
  by pat_completeness auto
termination
  by (relation "measure (\<lambda>(i, passwordChars, tape). i)") simp_all

declare shuffle.simps [simp del]

text \<open>
  \<^verbatim>\<open>generate\<close>, with \<open>len\<close> the \<^verbatim>\<open>length\<close> state of the hook, an integer
  (the page sets it with \<^verbatim>\<open>parseInt\<close> from a range input). The result is the string
  given to \<^verbatim>\<open>setPassword\<close> and the unread random values; \<open>None\<close> when the random
  values ran out inside a rejection loop.
\<close>

definition generate :: "PasswordOptions \<Rightarrow> int \<Rightarrow> tape \<Rightarrow> (jsstring \<times> tape) option" where
  "generate options len tape =
     (if \<not> isValid options then Some ([], tape)
      else
        let fullCharset = concat (pools options) in
        if length fullCharset = 0 then Some ([], tape)
        else
          (case pickEach (pools options) tape of
             None \<Rightarrow> None
           | Some (passwordChars, tape1) \<Rightarrow>
               let targetLength = max len (int (length passwordChars)) in
               (case fillRemaining fullCharset targetLength (length passwordChars)
                       passwordChars tape1 of
                  None \<Rightarrow> None
                | Some (passwordChars, tape2) \<Rightarrow>
                    (case shuffle (length passwordChars - 1) passwordChars tape2 of
                       None \<Rightarrow> None
                     | Some (passwordChars, tape3) \<Rightarrow> Some (concat passwordChars, tape3)))))"

text \<open>
  Random values that every rejection loop of a run accepts at once: \<open>v + B\<close> stays
  within \<^verbatim>\<open>0xffffffff\<close>, where \<open>B\<close> bounds every \<^verbatim>\<open>max\<close> the run passes.
\<close>

definition acceptedBy :: "nat \<Rightarrow> tape \<Rightarrow> bool" where
  "acceptedBy B tape \<longleftrightarrow> list_all (\<lambda>v. unat v + B \<le> 0xffffffff) tape"

text \<open>Options for a run: upper case and digits, ambiguous characters excluded.\<close>

definition upperDigits :: PasswordOptions where
  "upperDigits = \<lparr>uppercase = True, lowercase = False, numbers = True, symbols = False,
     excludeAmbiguous = True\<rparr>"

section \<open>The crypto codec of \<^verbatim>\<open>src/utils/clipboard.ts\<close>\<close>

subsection \<open>Data of the source\<close>

text \<open>\<^verbatim>\<open>type CryptoAlgo = 'AES' | 'DES' | 'TripleDES'\<close>, and each value as the string it is.\<close>

datatype CryptoAlgo = AES | DES | TripleDES

fun algoName :: "CryptoAlgo \<Rightarrow> jsstring" where
  "algoName AES = lit ''AES''"
| "algoName DES = lit ''DES''"
| "algoName TripleDES = lit ''TripleDES''"

text \<open>\<^verbatim>\<open>enum CryptoErrorCode\<close>.\<close>

datatype CryptoErrorCode =
  INVALID_PAYLOAD | UNSUPPORTED_VERSION | INTEGRITY_FAILED | DECRYPTION_FAILED | MALFORMED_INPUT

text \<open>
  What a call can throw: a \<^verbatim>\<open>CryptoError\<close> with its code, or an error of the engine
  or the library that no \<^verbatim>\<open>catch\<close> of the source turns into one.
\<close>

datatype failure = CryptoError CryptoErrorCode | NativeError

text \<open>The fields of \<^verbatim>\<open>SECURITY_CONFIG\<close> that the two functions read.\<close>

definition VERSION :: real where
  "VERSION = 1"

definition PBKDF2_ITERATIONS :: nat where
  "PBKDF2_ITERATIONS = 100000"

subsection \<open>Values of the engine and of the library\<close>

text \<open>
  What \<^verbatim>\<open>JSON.parse\<close> can return. A number is an IEEE double in the engine; the model
  has the real numbers, of which the source only asks whether one is 0 and whether it is 1.
\<close>

datatype json =
  JNull | JBool bool | JNum real | JStr jsstring | JArr "json list"
  | JObj "(jsstring \<times> json) list"

text \<open>
  \<^verbatim>\<open>payload.k\<close> for one of the six field names: the value, or \<open>None\<close> for
  \<^verbatim>\<open>undefined\<close>. Only an object has such a property. (On \<^verbatim>\<open>null\<close> the read
  throws; \<open>decryptText\<close> below has that case.)
\<close>

fun field :: "json \<Rightarrow> jsstring \<Rightarrow> json option" where
  "field (JObj kvs) k = map_of kvs k"
| "field _ k = None"

text \<open>\<^verbatim>\<open>!x\<close> is false exactly for the truthy values.\<close>

fun truthy :: "json option \<Rightarrow> bool" where
  "truthy None = False"
| "truthy (Some JNull) = False"
| "truthy (Some (JBool b)) = b"
| "truthy (Some (JNum x)) = (x \<noteq> 0)"
| "truthy (Some (JStr s)) = (s \<noteq> [])"
| "truthy (Some (JArr xs)) = True"
| "truthy (Some (JObj kvs)) = True"

text \<open>\<^verbatim>\<open>Array.prototype.join\<close> on strings.\<close>

fun join :: "jsstring \<Rightarrow> jsstring list \<Rightarrow> jsstring" where
  "join sep [] = []"
| "join sep [x] = x"
| "join sep (x # y # ys) = x @ sep @ join sep (y # ys)"

text \<open>
  The string an engine makes of a value (\<open>ToString\<close>), with the printing of numbers left
  to the engine. An array prints its elements joined by commas, \<^verbatim>\<open>null\<close> elements as
  the empty string.
\<close>

fun jsToString :: "(real \<Rightarrow> jsstring) \<Rightarrow> json \<Rightarrow> jsstring" where
  "jsToString num JNull = lit ''null''"
| "jsToString num (JBool b) = (if b then lit ''true'' else lit ''false'')"
| "jsToString num (JNum x) = num x"
| "jsToString num (JStr s) = s"
| "jsToString num (JArr xs) =
     join (lit '','') (map (\<lambda>x. if x = JNull then [] else jsToString num x) xs)"
| "jsToString num (JObj kvs) = lit ''[object Object]''"

text \<open>A \<^verbatim>\<open>CryptoJS.lib.WordArray\<close>: 32-bit words and the number of significant bytes.\<close>

record wordarray =
  words :: "32 word list"
  sigBytes :: nat

text \<open>\<^verbatim>\<open>WordArray.create(words)\<close>: all bytes of the words are significant.\<close>

definition WordArray_create :: "32 word list \<Rightarrow> wordarray" where
  "WordArray_create ws = \<lparr>words = ws, sigBytes = 4 * length ws\<rparr>"

text \<open>
  The functions of \<^verbatim>\<open>crypto-js\<close> and of the engine that the source calls. They are
  not code of this repository and are parameters of the model:
  \<^item> \<open>PBKDF2 passphrase salt keySize iterations\<close>, with SHA-256 as the hasher;
  \<^item> \<open>HmacSHA256 data key\<close>;
  \<^item> \<open>Hex_stringify\<close>, which is \<^verbatim>\<open>toString()\<close> of a word array, and \<open>Hex_parse\<close> on a
    string; \<open>Hex_parse_other\<close> is \<^verbatim>\<open>Hex.parse\<close> on a value that is not a string, where
    it may throw (\<open>None\<close>);
  \<^item> \<open>Base64_stringify\<close>, and \<open>Base64_parse\<close> on any value, \<open>None\<close> when it throws;
  \<^item> \<open>cipher_encrypt algo text key iv\<close>, the \<^verbatim>\<open>ciphertext\<close> of
    \<^verbatim>\<open>cipher.encrypt\<close> in CBC mode with PKCS7 padding, and \<open>cipher_decrypt\<close>, \<open>None\<close>
    when it throws;
  \<^item> \<open>Utf8_stringify\<close>, \<open>None\<close> when the bytes are not UTF-8 and it throws;
  \<^item> \<open>JSON_parse\<close>, \<open>None\<close> when it throws, and \<open>JSON_stringify\<close>;
  \<^item> \<open>Number_toString\<close>.
  \<open>PBKDF2\<close>, \<open>HmacSHA256\<close> and \<open>cipher_encrypt\<close> stand for the library on strings
  it can encode; what the library does with a string it cannot encode is in
  \<open>encryptText\<close> below.
\<close>

record cryptojs =
  PBKDF2 :: "jsstring \<Rightarrow> wordarray \<Rightarrow> nat \<Rightarrow> nat \<Rightarrow> wordarray"
  HmacSHA256 :: "jsstring \<Rightarrow> wordarray \<Rightarrow> wordarray"
  Hex_stringify :: "wordarray \<Rightarrow> jsstring"
  Hex_parse :: "jsstring \<Rightarrow> wordarray"
  Hex_parse_other :: "json \<Rightarrow> wordarray option"
  Base64_stringify :: "wordarray \<Rightarrow> jsstring"
  Base64_parse :: "json \<Rightarrow> wordarray option"
  cipher_encrypt :: "CryptoAlgo \<Rightarrow> jsstring \<Rightarrow> wordarray \<Rightarrow> wordarray \<Rightarrow> wordarray"
  cipher_decrypt :: "CryptoAlgo \<Rightarrow> wordarray \<Rightarrow> wordarray \<Rightarrow> wordarray \<Rightarrow> wordarray option"
  Utf8_stringify :: "wordarray \<Rightarrow> jsstring option"
  JSON_parse :: "jsstring \<Rightarrow> json option"
  JSON_stringify :: "json \<Rightarrow> jsstring"
  Number_toString :: "real \<Rightarrow> jsstring"

text \<open>The calls of the library that the model records, in the order they are made.\<close>

datatype libcall = PBKDF2_call | HmacSHA256_call | decrypt_call CryptoAlgo

subsection \<open>\<^verbatim>\<open>ALGO_MAP\<close> (lines 76 to 80)\<close>

text \<open>
  \<^verbatim>\<open>ALGO_MAP\<close> is an object literal, so \<^verbatim>\<open>ALGO_MAP[key]\<close> finds its three own
  properties and, for any other key, what every object inherits from
  \<^verbatim>\<open>Object.prototype\<close>. These are the names ECMAScript (with its Annex B) puts there;
  each of them holds a function or an object, which is truthy and has no \<^verbatim>\<open>decrypt\<close>.
\<close>

definition Object_prototype_keys :: "jsstring list" where
  "Object_prototype_keys =
     [lit ''constructor'', lit ''hasOwnProperty'', lit ''isPrototypeOf'',
      lit ''propertyIsEnumerable'', lit ''toLocaleString'', lit ''toString'', lit ''valueOf'',
      lit ''__proto__'', lit ''__defineGetter__'', lit ''__defineSetter__'',
      lit ''__lookupGetter__'', lit ''__lookupSetter__'']"

datatype mapMember = Cipher CryptoAlgo | Inherited | Undefined

definition ALGO_MAP_get :: "jsstring \<Rightarrow> mapMember" where
  "ALGO_MAP_get key =
     (if key = lit ''AES'' then Cipher AES
      else if key = lit ''DES'' then Cipher DES
      else if key = lit ''TripleDES'' then Cipher TripleDES
      else if key \<in> set Object_prototype_keys then Inherited
      else Undefined)"

text \<open>The property key a value is turned into: \<^verbatim>\<open>undefined\<close> reads \<open>"undefined"\<close>.\<close>

definition propertyKey :: "cryptojs \<Rightarrow> json option \<Rightarrow> jsstring" where
  "propertyKey L v =
     (case v of None \<Rightarrow> lit ''undefined'' | Some x \<Rightarrow> jsToString (Number_toString L) x)"

subsection \<open>\<^verbatim>\<open>deriveKeys\<close> and \<^verbatim>\<open>calculateMAC\<close> (lines 86 to 106)\<close>

text \<open>
  One derivation of \<open>(32 + 32) / 4\<close> words; \<^verbatim>\<open>slice(0, 8)\<close> is the cipher key and
  \<^verbatim>\<open>slice(8, 16)\<close> the MAC key.
\<close>

definition deriveKeys :: "cryptojs \<Rightarrow> jsstring \<Rightarrow> wordarray \<Rightarrow> wordarray \<times> wordarray" where
  "deriveKeys L passphrase salt =
     (let derived = PBKDF2 L passphrase salt ((32 + 32) div 4) PBKDF2_ITERATIONS;
          encKey = WordArray_create (take 8 (words derived));
          macKey = WordArray_create (take (16 - 8) (drop 8 (words derived)))
      in (encKey, macKey))"

text \<open>
  What \<^verbatim>\<open>join\<close> makes of one element of \<^verbatim>\<open>payloadParts\<close>: the empty string for
  \<^verbatim>\<open>undefined\<close> and \<^verbatim>\<open>null\<close>, the string of the value otherwise. (The type says
  \<^verbatim>\<open>string[]\<close>; \<^verbatim>\<open>decryptText\<close> passes the parsed fields as they are.)
\<close>

definition joinItem :: "cryptojs \<Rightarrow> json option \<Rightarrow> jsstring" where
  "joinItem L v =
     (case v of None \<Rightarrow> [] | Some JNull \<Rightarrow> [] | Some x \<Rightarrow> jsToString (Number_toString L) x)"

definition calculateMAC :: "cryptojs \<Rightarrow> json option list \<Rightarrow> wordarray \<Rightarrow> jsstring" where
  "calculateMAC L payloadParts macKey =
     (let dataToAuth = join (lit ''|'') (map (joinItem L) payloadParts)
      in Hex_stringify L (HmacSHA256 L dataToAuth macKey))"

subsection \<open>\<^verbatim>\<open>encryptText\<close> (lines 112 to 143)\<close>

text \<open>
  The \<^verbatim>\<open>payload\<close> object that \<^verbatim>\<open>encryptText\<close> builds. The salt and the IV come
  from \<^verbatim>\<open>WordArray.random\<close> and are arguments here.
\<close>

text \<open>
  The library turns a string into bytes with \<^verbatim>\<open>Utf8.parse\<close>, which is
  \<^verbatim>\<open>unescape(encodeURIComponent(s))\<close> and throws a \<^verbatim>\<open>URIError\<close> on a string that
  holds a lone surrogate. In a string read as code points, the surrogates that are left are
  the lone ones.
\<close>

definition wellFormed :: "jsstring \<Rightarrow> bool" where
  "wellFormed s = list_all (\<lambda>c. c < 0xd800 \<or> 0xdfff < c) s"

definition envelope ::
  "cryptojs \<Rightarrow> jsstring \<Rightarrow> jsstring \<Rightarrow> CryptoAlgo \<Rightarrow> wordarray \<Rightarrow> wordarray \<Rightarrow> json" where
  "envelope L text passphrase algo salt iv =
     (let (encKey, macKey) = deriveKeys L passphrase salt;
          ciphertext = cipher_encrypt L algo text encKey iv;
          ciphertextBase64 = Base64_stringify L ciphertext;
          mac = calculateMAC L
                  [Some (JStr (Number_toString L VERSION)), Some (JStr (algoName algo)),
                   Some (JStr (Hex_stringify L salt)), Some (JStr (Hex_stringify L iv)),
                   Some (JStr ciphertextBase64)] macKey
      in JObj [(lit ''v'', JNum VERSION), (lit ''a'', JStr (algoName algo)),
               (lit ''s'', JStr (Hex_stringify L salt)), (lit ''iv'', JStr (Hex_stringify L iv)),
               (lit ''ct'', JStr ciphertextBase64), (lit ''mac'', JStr mac)])"

text \<open>
  \<^verbatim>\<open>encryptText(text, passphrase, algo)\<close>. Neither \<^verbatim>\<open>deriveKeys\<close>, which encodes
  the passphrase, nor \<^verbatim>\<open>cipher.encrypt\<close>, which encodes the text, is inside a
  \<^verbatim>\<open>try\<close>: on a passphrase or a text that is not well formed the call throws the
  error of the engine, in this order. Otherwise it returns the envelope as JSON text.
\<close>

definition encryptText ::
  "cryptojs \<Rightarrow> jsstring \<Rightarrow> jsstring \<Rightarrow> CryptoAlgo \<Rightarrow> wordarray \<Rightarrow> wordarray \<Rightarrow>
   failure + jsstring" where
  "encryptText L text passphrase algo salt iv =
     (if \<not> wellFormed passphrase then Inl NativeError
      else if \<not> wellFormed text then Inl NativeError
      else Inr (JSON_stringify L (envelope L text passphrase algo salt iv)))"

subsection \<open>\<^verbatim>\<open>decryptText\<close> (lines 149 to 201)\<close>

text \<open>
  The first \<^verbatim>\<open>try\<close> block, after the parse: the five fields its \<^verbatim>\<open>if\<close> tests,
  when all five are truthy. The field \<^verbatim>\<open>a\<close> is not among them.
\<close>

definition checkedFields :: "json \<Rightarrow> (json \<times> json \<times> json \<times> json \<times> json) option" where
  "checkedFields payload =
     (if \<not> truthy (field payload (lit ''v'')) \<or> \<not> truthy (field payload (lit ''ct'')) \<or>
         \<not> truthy (field payload (lit ''s'')) \<or> \<not> truthy (field payload (lit ''iv'')) \<or>
         \<not> truthy (field payload (lit ''mac''))
      then None
      else
        (case (field payload (lit ''v''), field payload (lit ''ct''), field payload (lit ''s''),
               field payload (lit ''iv''), field payload (lit ''mac'')) of
           (Some v, Some ct, Some s, Some iv, Some mac) \<Rightarrow> Some (v, ct, s, iv, mac)
         | _ \<Rightarrow> None))"

text \<open>\<^verbatim>\<open>CryptoJS.enc.Hex.parse(x)\<close> on a parsed field.\<close>

definition hexParseValue :: "cryptojs \<Rightarrow> json \<Rightarrow> wordarray option" where
  "hexParseValue L x = (case x of JStr s \<Rightarrow> Some (Hex_parse L s) | _ \<Rightarrow> Hex_parse_other L x)"

text \<open>
  Step 3, the second \<^verbatim>\<open>try\<close> block, with the calls made so far. Every throw inside
  it becomes \<^verbatim>\<open>DECRYPTION_FAILED\<close>: of \<^verbatim>\<open>Base64.parse\<close>, of the cipher, of the UTF-8
  decoder, the \<^verbatim>\<open>throw\<close> on an empty plaintext, and the call of \<^verbatim>\<open>cipher.decrypt\<close>
  when \<^verbatim>\<open>cipher\<close> is an inherited member that has no such function.
\<close>

definition decryptStep ::
  "cryptojs \<Rightarrow> libcall list \<Rightarrow> json option \<Rightarrow> json \<Rightarrow> wordarray \<Rightarrow> wordarray \<Rightarrow>
   libcall list \<times> (failure + jsstring)" where
  "decryptStep L calls a ct encKey iv =
     (let cipher = (case ALGO_MAP_get (propertyKey L a) of
                      Undefined \<Rightarrow> Cipher AES
                    | found \<Rightarrow> found)
      in case cipher of
           Cipher algo \<Rightarrow>
             (case Base64_parse L ct of
                None \<Rightarrow> (calls, Inl (CryptoError DECRYPTION_FAILED))
              | Some ciphertext \<Rightarrow>
                  (case cipher_decrypt L algo ciphertext encKey iv of
                     None \<Rightarrow> (calls @ [decrypt_call algo], Inl (CryptoError DECRYPTION_FAILED))
                   | Some decrypted \<Rightarrow>
                       (case Utf8_stringify L decrypted of
                          None \<Rightarrow>
                            (calls @ [decrypt_call algo], Inl (CryptoError DECRYPTION_FAILED))
                        | Some plainText \<Rightarrow>
                            if plainText = []
                            then (calls @ [decrypt_call algo],
                                  Inl (CryptoError DECRYPTION_FAILED))
                            else (calls @ [decrypt_call algo], Inr plainText))))
         | _ \<Rightarrow> (calls, Inl (CryptoError DECRYPTION_FAILED)))"

text \<open>
  \<^verbatim>\<open>decryptText(packed, passphrase)\<close>: the calls it made of the key derivation, the
  MAC and the cipher, and what it returned or threw. The passphrase is taken to be well
  formed, and so are the fields that go into the MAC; on others the key derivation or the
  MAC of the source throws the error of the engine.
\<close>

definition decryptText ::
  "cryptojs \<Rightarrow> jsstring \<Rightarrow> jsstring \<Rightarrow> libcall list \<times> (failure + jsstring)" where
  "decryptText L packed passphrase =
     (case JSON_parse L packed of
        None \<Rightarrow> ([], Inl (CryptoError INVALID_PAYLOAD))
      | Some JNull \<Rightarrow> ([], Inl (CryptoError INVALID_PAYLOAD))
      | Some payload \<Rightarrow>
          (case checkedFields payload of
             None \<Rightarrow> ([], Inl (CryptoError INVALID_PAYLOAD))
           | Some (v, ct, s, iv, mac) \<Rightarrow>
               if v \<noteq> JNum VERSION then ([], Inl (CryptoError UNSUPPORTED_VERSION))
               else
                 (case hexParseValue L s of
                    None \<Rightarrow> ([], Inl NativeError)
                  | Some salt \<Rightarrow>
                      (case hexParseValue L iv of
                         None \<Rightarrow> ([], Inl NativeError)
                       | Some ivw \<Rightarrow>
                           let (encKey, macKey) = deriveKeys L passphrase salt;
                               expectedMac = calculateMAC L
                                 [Some (JStr (Number_toString L VERSION)),
                                  field payload (lit ''a''), Some s, Some iv, Some ct] macKey
                           in if JStr expectedMac \<noteq> mac
                              then ([PBKDF2_call, HmacSHA256_call],
                                    Inl (CryptoError INTEGRITY_FAILED))
                              else decryptStep L [PBKDF2_call, HmacSHA256_call]
                                     (field payload (lit ''a'')) ct encKey ivw))))"

text \<open>
  What the round trip of a plaintext asks of the library, for this passphrase, salt and
  IV: the envelope text parses back to the envelope; the hexadecimal text of the salt and
  of the IV, the Base64 text of the ciphertext and the hexadecimal text of the MAC are not
  empty; the salt, the IV and the ciphertext are read back from their texts; and AES
  decrypts what it encrypted, to bytes that decode to the plaintext.
\<close>

definition roundtripLaws ::
  "cryptojs \<Rightarrow> jsstring \<Rightarrow> jsstring \<Rightarrow> wordarray \<Rightarrow> wordarray \<Rightarrow> bool" where
  "roundtripLaws L text passphrase salt iv =
     (let encKey = fst (deriveKeys L passphrase salt);
          ciphertext = cipher_encrypt L AES text encKey iv
      in JSON_parse L (JSON_stringify L (envelope L text passphrase AES salt iv)) =
           Some (envelope L text passphrase AES salt iv) \<and>
         Hex_stringify L salt \<noteq> [] \<and> Hex_stringify L iv \<noteq> [] \<and>
         Base64_stringify L ciphertext \<noteq> [] \<and>
         field (envelope L text passphrase AES salt iv) (lit ''mac'') \<noteq> Some (JStr []) \<and>
         Hex_parse L (Hex_stringify L salt) = salt \<and>
         Hex_parse L (Hex_stringify L iv) = iv \<and>
         Base64_parse L (JStr (Base64_stringify L ciphertext)) = Some ciphertext \<and>
         (case cipher_decrypt L AES ciphertext encKey iv of
            None \<Rightarrow> False
          | Some decrypted \<Rightarrow> Utf8_stringify L decrypted = Some text))"

subsection \<open>A small library to run the codec on\<close>

text \<open>
  Stand-ins for the library, simple enough to compute with: the key derivation depends
  only on the length of the passphrase, the text of a word array is its words read as
  characters (for the hexadecimal and for the Base64 text alike), the MAC is the data
  followed by \<open>#\<close> and the first word of the key, and the cipher moves every character up
  by one and appends \<open>=\<close> as padding, which decryption checks and removes. None of the
  general theorems depends on them.
\<close>

definition demo_PBKDF2 :: "jsstring \<Rightarrow> wordarray \<Rightarrow> nat \<Rightarrow> nat \<Rightarrow> wordarray" where
  "demo_PBKDF2 passphrase salt keySize iterations =
     WordArray_create (replicate (keySize div 2) (of_nat (0x30 + length passphrase)) @
                       replicate (keySize div 2) (of_nat (0x40 + length passphrase)))"

definition demo_HmacSHA256 :: "jsstring \<Rightarrow> wordarray \<Rightarrow> wordarray" where
  "demo_HmacSHA256 dat key = WordArray_create (map of_nat dat @ [0x23] @ take 1 (words key))"

definition demo_stringify :: "wordarray \<Rightarrow> jsstring" where
  "demo_stringify w = map unat (words w)"

definition demo_parse :: "jsstring \<Rightarrow> wordarray" where
  "demo_parse s = WordArray_create (map of_nat s)"

definition demo_encrypt :: "CryptoAlgo \<Rightarrow> jsstring \<Rightarrow> wordarray \<Rightarrow> wordarray \<Rightarrow> wordarray" where
  "demo_encrypt algo text key iv = WordArray_create (map (\<lambda>c. of_nat (c + 1)) text @ [0x3d])"

definition demo_decrypt ::
  "CryptoAlgo \<Rightarrow> wordarray \<Rightarrow> wordarray \<Rightarrow> wordarray \<Rightarrow> wordarray option" where
  "demo_decrypt algo ciphertext key iv =
     (if words ciphertext \<noteq> [] \<and> last (words ciphertext) = 0x3d
      then Some (WordArray_create (map (\<lambda>w. w - 1) (butlast (words ciphertext))))
      else None)"

fun demo_value :: "json \<Rightarrow> jsstring" where
  "demo_value (JStr s) = [0x22] @ s @ [0x22]"
| "demo_value (JNum x) = (if x = 1 then lit ''1'' else lit ''0'')"
| "demo_value _ = lit ''null''"

fun demo_JSON_stringify :: "json \<Rightarrow> jsstring" where
  "demo_JSON_stringify (JObj kvs) =
     lit ''{'' @ join (lit '','') (map (\<lambda>(k, v). [0x22] @ k @ [0x22] @ lit '':'' @ demo_value v) kvs)
       @ lit ''}''"
| "demo_JSON_stringify x = demo_value x"

text \<open>Everything but the JSON parser.\<close>

definition demoPrimitives :: cryptojs where
  "demoPrimitives =
     \<lparr>PBKDF2 = demo_PBKDF2, HmacSHA256 = demo_HmacSHA256,
      Hex_stringify = demo_stringify, Hex_parse = demo_parse, Hex_parse_other = (\<lambda>x. None),
      Base64_stringify = demo_stringify,
      Base64_parse = (\<lambda>x. case x of JStr s \<Rightarrow> Some (demo_parse s) | _ \<Rightarrow> None),
      cipher_encrypt = demo_encrypt, cipher_decrypt = demo_decrypt,
      Utf8_stringify = (\<lambda>w. Some (demo_stringify w)),
      JSON_parse = (\<lambda>s. None), JSON_stringify = demo_JSON_stringify,
      Number_toString = (\<lambda>x. if x = 1 then lit ''1'' else lit ''0'')\<rparr>"

text \<open>A salt and an IV whose texts are \<open>salt\<close> and \<open>ivec\<close>.\<close>

definition demoSalt :: wordarray where
  "demoSalt = WordArray_create (map of_nat (lit ''salt''))"

definition demoIv :: wordarray where
  "demoIv = WordArray_create (map of_nat (lit ''ivec''))"


text \<open>
  Five envelopes: of the plaintext \<open>hi\<close> and of the empty plaintext under the
  passphrase \<open>pw\<close>; the first one without its field \<open>a\<close> and with the MAC of
  the fields as they then are; the first one with \<open>constructor\<close> as its algorithm
  and the MAC of that; and the first one without its field \<open>ct\<close>.
\<close>

definition demoEnvelope :: json where
  "demoEnvelope = envelope demoPrimitives (lit ''hi'') (lit ''pw'') AES demoSalt demoIv"

definition demoEnvelopeEmpty :: json where
  "demoEnvelopeEmpty = envelope demoPrimitives [] (lit ''pw'') AES demoSalt demoIv"

definition demoEnvelopeNoAlgorithm :: json where
  "demoEnvelopeNoAlgorithm =
     JObj [(lit ''v'', JNum 1), (lit ''s'', JStr (lit ''salt'')), (lit ''iv'', JStr (lit ''ivec'')),
           (lit ''ct'', JStr (lit ''ij='')), (lit ''mac'', JStr (lit ''1||salt|ivec|ij=#B''))]"

definition demoEnvelopeConstructor :: json where
  "demoEnvelopeConstructor =
     JObj [(lit ''v'', JNum 1), (lit ''a'', JStr (lit ''constructor'')),
           (lit ''s'', JStr (lit ''salt'')), (lit ''iv'', JStr (lit ''ivec'')),
           (lit ''ct'', JStr (lit ''ij='')),
           (lit ''mac'', JStr (lit ''1|constructor|salt|ivec|ij=#B''))]"

definition demoEnvelopeNoCiphertext :: json where
  "demoEnvelopeNoCiphertext =
     JObj [(lit ''v'', JNum 1), (lit ''a'', JStr (lit ''AES'')),
           (lit ''s'', JStr (lit ''salt'')), (lit ''iv'', JStr (lit ''ivec'')),
           (lit ''mac'', JStr (lit ''1|AES|salt|ivec|ij=#B''))]"

text \<open>
  The library with a JSON parser that knows the texts of these five envelopes and rejects
  every other text.
\<close>

definition demoLib :: cryptojs where
  "demoLib = demoPrimitives
     \<lparr>JSON_parse := map_of (map (\<lambda>p. (demo_JSON_stringify p, p))
        [demoEnvelope, demoEnvelopeEmpty, demoEnvelopeNoAlgorithm, demoEnvelopeConstructor,
         demoEnvelopeNoCiphertext])\<rparr>"

section \<open>Completeness of the edit script\<close>

lemma oldSide_Nil: "oldSide [] = []"
  by (simp add: oldSide_def map_filter_simps)

lemma newSide_Nil: "newSide [] = []"
  by (simp add: newSide_def map_filter_simps)

lemma oldSide_Cons:
  "oldSide (d # ops) =
     (case (if type d \<noteq> added then oldItem d else None) of
        None \<Rightarrow> oldSide ops | Some x \<Rightarrow> x # oldSide ops)"
  by (simp add: oldSide_def map_filter_simps split: option.split)

lemma newSide_Cons:
  "newSide (d # ops) =
     (case (if type d \<noteq> removed then newItem d else None) of
        None \<Rightarrow> newSide ops | Some x \<Rightarrow> x # newSide ops)"
  by (simp add: newSide_def map_filter_simps split: option.split)

lemma take_minus_one_snoc:
  "0 < i \<Longrightarrow> i \<le> length xs \<Longrightarrow> take (i - 1) xs @ [xs ! (i - 1)] = take i xs"
  by (cases i) (simp_all add: take_Suc_conv_app_nth)

text \<open>The four ways one turn of the backtrack loop can go.\<close>

lemma backtrack_stop: "backtrack oldItems newItems dp 0 0 result = result"
  by (subst backtrack.simps) simp

lemma backtrack_match:
  "0 < i \<Longrightarrow> 0 < j \<Longrightarrow> diff (oldItems ! (i - 1)) = diff (newItems ! (j - 1)) \<Longrightarrow>
   backtrack oldItems newItems dp i j result =
     backtrack oldItems newItems dp (i - 1) (j - 1)
       (\<lparr>type = unchanged, oldItem = Some (oldItems ! (i - 1)),
         newItem = Some (newItems ! (j - 1))\<rparr> # result)"
  by (subst backtrack.simps) simp

lemma backtrack_add:
  "0 < j \<Longrightarrow> \<not> (0 < i \<and> diff (oldItems ! (i - 1)) = diff (newItems ! (j - 1))) \<Longrightarrow>
   i = 0 \<or> dp ! i ! (j - 1) \<ge> dp ! (i - 1) ! j \<Longrightarrow>
   backtrack oldItems newItems dp i j result =
     backtrack oldItems newItems dp i (j - 1)
       (\<lparr>type = added, oldItem = None, newItem = Some (newItems ! (j - 1))\<rparr> # result)"
  by (subst backtrack.simps) auto

lemma backtrack_remove:
  "0 < i \<Longrightarrow> \<not> (0 < j \<and> diff (oldItems ! (i - 1)) = diff (newItems ! (j - 1))) \<Longrightarrow>
   \<not> (0 < j \<and> dp ! i ! (j - 1) \<ge> dp ! (i - 1) ! j) \<Longrightarrow>
   backtrack oldItems newItems dp i j result =
     backtrack oldItems newItems dp (i - 1) j
       (\<lparr>type = removed, oldItem = Some (oldItems ! (i - 1)), newItem = None\<rparr> # result)"
  by (subst backtrack.simps) auto

text \<open>
  The invariant of the backtrack loop, for any table: what is in front of \<open>result\<close>
  when the loop ends is the first \<open>i\<close> old items on the old side and the first \<open>j\<close>
  new items on the new side.
\<close>

lemma backtrack_oldSide:
  "i \<le> length oldItems \<Longrightarrow>
   oldSide (backtrack oldItems newItems dp i j result) = take i oldItems @ oldSide result"
proof (induction oldItems newItems dp i j result rule: backtrack.induct)
  case (1 oldItems newItems dp i j result)
  let ?eq = "diff (oldItems ! (i - 1)) = diff (newItems ! (j - 1))"
  let ?ge = "dp ! i ! (j - 1) \<ge> dp ! (i - 1) ! j"
  consider (stop) "i = 0" "j = 0"
    | (match) "0 < i" "0 < j" "?eq"
    | (add) "0 < j" "\<not> (0 < i \<and> ?eq)" "i = 0 \<or> ?ge"
    | (remove) "0 < i" "\<not> (0 < j \<and> ?eq)" "\<not> (0 < j \<and> ?ge)"
    by (cases "i = 0"; cases "j = 0"; cases "?eq"; cases "?ge") auto
  then show ?case
  proof cases
    case stop
    then show ?thesis by (simp add: backtrack_stop)
  next
    case match
    have "oldSide (backtrack oldItems newItems dp i j result) =
          take (i - 1) oldItems @ [oldItems ! (i - 1)] @ oldSide result"
      using match "1.IH"(1) "1.prems"
      by (simp add: backtrack_match oldSide_Cons)
    then show ?thesis
      using match "1.prems" take_minus_one_snoc [of i oldItems] by simp
  next
    case add
    have "i > 0 \<or> j > 0" using add by simp
    moreover have "\<not> (i > 0 \<and> j > 0 \<and> ?eq)" using add by simp
    moreover have "j > 0 \<and> (i = 0 \<or> ?ge)" using add by simp
    ultimately have "oldSide (backtrack oldItems newItems dp i (j - 1)
          (\<lparr>type = added, oldItem = None, newItem = Some (newItems ! (j - 1))\<rparr> # result)) =
          take i oldItems @ oldSide (\<lparr>type = added, oldItem = None,
             newItem = Some (newItems ! (j - 1))\<rparr> # result)"
      using "1.IH"(2) "1.prems" by blast
    then show ?thesis
      using add by (simp add: backtrack_add oldSide_Cons)
  next
    case remove
    have "i > 0 \<or> j > 0" using remove by simp
    moreover have "\<not> (i > 0 \<and> j > 0 \<and> ?eq)" using remove by simp
    moreover have "\<not> (j > 0 \<and> (i = 0 \<or> ?ge))" using remove by simp
    moreover have "i - 1 \<le> length oldItems" using "1.prems" by simp
    ultimately have "oldSide (backtrack oldItems newItems dp (i - 1) j
          (\<lparr>type = removed, oldItem = Some (oldItems ! (i - 1)), newItem = None\<rparr> # result)) =
          take (i - 1) oldItems @ oldSide (\<lparr>type = removed,
             oldItem = Some (oldItems ! (i - 1)), newItem = None\<rparr> # result)"
      using "1.IH"(3) by blast
    then have "oldSide (backtrack oldItems newItems dp i j result) =
          take (i - 1) oldItems @ [oldItems ! (i - 1)] @ oldSide result"
      using remove by (simp add: backtrack_remove oldSide_Cons)
    then show ?thesis
      using remove "1.prems" take_minus_one_snoc [of i oldItems] by simp
  qed
qed

lemma backtrack_newSide:
  "j \<le> length newItems \<Longrightarrow>
   newSide (backtrack oldItems newItems dp i j result) = take j newItems @ newSide result"
proof (induction oldItems newItems dp i j result rule: backtrack.induct)
  case (1 oldItems newItems dp i j result)
  let ?eq = "diff (oldItems ! (i - 1)) = diff (newItems ! (j - 1))"
  let ?ge = "dp ! i ! (j - 1) \<ge> dp ! (i - 1) ! j"
  consider (stop) "i = 0" "j = 0"
    | (match) "0 < i" "0 < j" "?eq"
    | (add) "0 < j" "\<not> (0 < i \<and> ?eq)" "i = 0 \<or> ?ge"
    | (remove) "0 < i" "\<not> (0 < j \<and> ?eq)" "\<not> (0 < j \<and> ?ge)"
    by (cases "i = 0"; cases "j = 0"; cases "?eq"; cases "?ge") auto
  then show ?case
  proof cases
    case stop
    then show ?thesis by (simp add: backtrack_stop)
  next
    case match
    have "newSide (backtrack oldItems newItems dp i j result) =
          take (j - 1) newItems @ [newItems ! (j - 1)] @ newSide result"
      using match "1.IH"(1) "1.prems"
      by (simp add: backtrack_match newSide_Cons)
    then show ?thesis
      using match "1.prems" take_minus_one_snoc [of j newItems] by simp
  next
    case add
    have "i > 0 \<or> j > 0" using add by simp
    moreover have "\<not> (i > 0 \<and> j > 0 \<and> ?eq)" using add by simp
    moreover have "j > 0 \<and> (i = 0 \<or> ?ge)" using add by simp
    moreover have "j - 1 \<le> length newItems" using "1.prems" by simp
    ultimately have "newSide (backtrack oldItems newItems dp i (j - 1)
          (\<lparr>type = added, oldItem = None, newItem = Some (newItems ! (j - 1))\<rparr> # result)) =
          take (j - 1) newItems @ newSide (\<lparr>type = added, oldItem = None,
             newItem = Some (newItems ! (j - 1))\<rparr> # result)"
      using "1.IH"(2) by blast
    then have "newSide (backtrack oldItems newItems dp i j result) =
          take (j - 1) newItems @ [newItems ! (j - 1)] @ newSide result"
      using add by (simp add: backtrack_add newSide_Cons)
    then show ?thesis
      using add "1.prems" take_minus_one_snoc [of j newItems] by simp
  next
    case remove
    have "i > 0 \<or> j > 0" using remove by simp
    moreover have "\<not> (i > 0 \<and> j > 0 \<and> ?eq)" using remove by simp
    moreover have "\<not> (j > 0 \<and> (i = 0 \<or> ?ge))" using remove by simp
    ultimately have "newSide (backtrack oldItems newItems dp (i - 1) j
          (\<lparr>type = removed, oldItem = Some (oldItems ! (i - 1)), newItem = None\<rparr> # result)) =
          take j newItems @ newSide (\<lparr>type = removed,
             oldItem = Some (oldItems ! (i - 1)), newItem = None\<rparr> # result)"
      using "1.IH"(3) "1.prems" by blast
    then show ?thesis
      using remove by (simp add: backtrack_remove newSide_Cons)
  qed
qed

text \<open>
  Claim C3. For every pair of input sequences the script that \<^verbatim>\<open>computeDiff\<close> returns
  is complete: the old items of its unchanged and removed operations, in order, are exactly
  the old sequence, and the new items of its unchanged and added operations, in order, are
  exactly the new sequence.
\<close>

theorem computeDiff_complete:
  "oldSide (computeDiff oldItems newItems) = oldItems \<and>
   newSide (computeDiff oldItems newItems) = newItems"
  by (simp add: computeDiff_def backtrack_oldSide backtrack_newSide oldSide_Nil newSide_Nil)

section \<open>The table holds the LCS scores\<close>

lemma lcsScore_Nil: "lcsScore [] ys = 0" "lcsScore xs [] = 0"
  by (simp_all add: lcsScore.simps)

lemma lcsScore_snoc:
  "lcsScore (xs @ [x]) (ys @ [y]) =
     (if diff x = diff y then lcsScore xs ys + 1
      else max (lcsScore xs (ys @ [y])) (lcsScore (xs @ [x]) ys))"
  by (subst lcsScore.simps) simp

lemma take_snoc_nth: "0 < i \<Longrightarrow> i \<le> length xs \<Longrightarrow> take i xs = take (i - 1) xs @ [xs ! (i - 1)]"
  using take_minus_one_snoc [of i xs] by simp

lemma lcsScore_take:
  assumes "0 < i" "i \<le> length xs" "0 < j" "j \<le> length ys"
  shows "lcsScore (take i xs) (take j ys) =
     (if diff (xs ! (i - 1)) = diff (ys ! (j - 1))
      then lcsScore (take (i - 1) xs) (take (j - 1) ys) + 1
      else max (lcsScore (take (i - 1) xs) (take j ys)) (lcsScore (take i xs) (take (j - 1) ys)))"
proof -
  have tx: "take i xs = take (i - 1) xs @ [xs ! (i - 1)]"
    using assms(1,2) by (rule take_snoc_nth)
  have ty: "take j ys = take (j - 1) ys @ [ys ! (j - 1)]"
    using assms(3,4) by (rule take_snoc_nth)
  have "lcsScore (take i xs) (take j ys) =
        lcsScore (take (i - 1) xs @ [xs ! (i - 1)]) (take (j - 1) ys @ [ys ! (j - 1)])"
    using tx ty by metis
  also have "\<dots> = (if diff (xs ! (i - 1)) = diff (ys ! (j - 1))
      then lcsScore (take (i - 1) xs) (take (j - 1) ys) + 1
      else max (lcsScore (take (i - 1) xs) (take (j - 1) ys @ [ys ! (j - 1)]))
               (lcsScore (take (i - 1) xs @ [xs ! (i - 1)]) (take (j - 1) ys)))"
    by (rule lcsScore_snoc)
  finally show ?thesis using tx ty by metis
qed

text \<open>A loop over \<open>[a..<b]\<close> keeps an invariant that each turn carries one step on.\<close>

lemma foldl_upt_invariant:
  assumes "a \<le> b" and "P a s"
    and "\<And>k t. a \<le> k \<Longrightarrow> k < b \<Longrightarrow> P k t \<Longrightarrow> P (Suc k) (f t k)"
  shows "P b (foldl f s [a..<b])"
  using assms(1,3)
proof (induction b)
  case 0
  then show ?case using assms(2) by simp
next
  case (Suc b)
  show ?case
  proof (cases "a = Suc b")
    case True
    then show ?thesis using assms(2) by simp
  next
    case False
    then have ab: "a \<le> b" using Suc.prems(1) by simp
    have "P b (foldl f s [a..<b])"
      using Suc.IH [OF ab] Suc.prems(2) by simp
    then have "P (Suc b) (f (foldl f s [a..<b]) b)"
      using Suc.prems(2) [of b] ab by simp
    then show ?thesis using ab by simp
  qed
qed

lemma dp_init_nth: "r \<le> n \<Longrightarrow> c \<le> m \<Longrightarrow> dp_init n m ! r ! c = 0"
  by (simp add: dp_init_def less_Suc_eq_le del: replicate_Suc)

lemma dp_init_length:
  "length (dp_init n m) = n + 1" "r \<le> n \<Longrightarrow> length (dp_init n m ! r) = m + 1"
  by (simp_all add: dp_init_def less_Suc_eq_le del: replicate_Suc)

lemma lcsScore_zero: "r = 0 \<or> c = 0 \<Longrightarrow> lcsScore (take r xs) (take c ys) = 0"
  by (auto simp: lcsScore_Nil)

lemma tableUpTo_init: "tableUpTo xs ys 1 0 (dp_init (length xs) (length ys))"
  unfolding tableUpTo_def
proof (intro conjI allI impI)
  show "length (dp_init (length xs) (length ys)) = length xs + 1" by (rule dp_init_length)
next
  fix r assume "r \<le> length xs"
  then show "length (dp_init (length xs) (length ys) ! r) = length ys + 1" by (rule dp_init_length)
next
  fix r c
  assume r: "r \<le> length xs" and c: "c \<le> length ys"
    and k: "r = 0 \<or> c = 0 \<or> r < 1 \<or> r = 1 \<and> c \<le> 0"
  then have "r = 0 \<or> c = 0" by auto
  then show "dp_init (length xs) (length ys) ! r ! c = lcsScore (take r xs) (take c ys)"
    using dp_init_nth [OF r c] by (simp add: lcsScore_zero)
qed

text \<open>The inner loop, the outer loop and the whole table.\<close>

lemma tableUpTo_cell:
  assumes inv: "tableUpTo xs ys i (j - 1) d" and i: "0 < i" "i \<le> length xs"
    and j: "0 < j" "j \<le> length ys"
  shows "tableUpTo xs ys i j (d[i := (d ! i)[j := dp_cell xs ys d i j]])"
proof -
  have len: "length d = length xs + 1" "\<forall>r \<le> length xs. length (d ! r) = length ys + 1"
    using inv unfolding tableUpTo_def by blast+
  have known: "d ! r ! c = lcsScore (take r xs) (take c ys)"
    if "r \<le> length xs" "c \<le> length ys"
       "r = 0 \<or> c = 0 \<or> r < i \<or> (r = i \<and> c \<le> j - 1)" for r c
    using inv that unfolding tableUpTo_def by blast
  have c1: "d ! (i - 1) ! (j - 1) = lcsScore (take (i - 1) xs) (take (j - 1) ys)"
    using i j by (intro known) auto
  have c2: "d ! (i - 1) ! j = lcsScore (take (i - 1) xs) (take j ys)"
    using i j by (intro known) auto
  have c3: "d ! i ! (j - 1) = lcsScore (take i xs) (take (j - 1) ys)"
    using i j by (intro known) auto
  have cell: "dp_cell xs ys d i j = lcsScore (take i xs) (take j ys)"
    using c1 c2 c3 lcsScore_take [OF i j] by (simp add: dp_cell_def)
  let ?d = "d[i := (d ! i)[j := dp_cell xs ys d i j]]"
  have l1: "length ?d = length xs + 1" using len by simp
  have l2: "\<forall>r \<le> length xs. length (?d ! r) = length ys + 1"
    using len i by (auto simp: nth_list_update)
  have vals: "\<forall>r \<le> length xs. \<forall>c \<le> length ys.
        (r = 0 \<or> c = 0 \<or> r < i \<or> (r = i \<and> c \<le> j)) \<longrightarrow>
          ?d ! r ! c = lcsScore (take r xs) (take c ys)"
  proof (intro allI impI)
    fix r c
    assume r: "r \<le> length xs" and c: "c \<le> length ys"
      and k: "r = 0 \<or> c = 0 \<or> r < i \<or> (r = i \<and> c \<le> j)"
    show "?d ! r ! c = lcsScore (take r xs) (take c ys)"
    proof (cases "r = i \<and> c = j")
      case True
      then show ?thesis using cell len i j by (simp add: nth_list_update)
    next
      case False
      then have "?d ! r ! c = d ! r ! c"
        using len r c i by (auto simp: nth_list_update)
      moreover have "r = 0 \<or> c = 0 \<or> r < i \<or> (r = i \<and> c \<le> j - 1)"
        using k False by auto
      ultimately show ?thesis using known [OF r c] by simp
    qed
  qed
  show ?thesis unfolding tableUpTo_def using l1 l2 vals by blast
qed

lemma tableUpTo_row:
  assumes inv: "tableUpTo xs ys i 0 d" and i: "0 < i" "i \<le> length xs"
  shows "tableUpTo xs ys (Suc i) 0 (dp_row xs ys d i)"
proof -
  have "tableUpTo xs ys i (length ys + 1 - 1)
          (foldl (\<lambda>d j. d[i := (d ! i)[j := dp_cell xs ys d i j]]) d [1..<length ys + 1])"
  proof (rule foldl_upt_invariant [where P = "\<lambda>k t. tableUpTo xs ys i (k - 1) t"])
    show "1 \<le> length ys + 1" by simp
    show "tableUpTo xs ys i (1 - 1) d" using inv by simp
  next
    fix k t
    assume "1 \<le> k" "k < length ys + 1" "tableUpTo xs ys i (k - 1) t"
    then show "tableUpTo xs ys i (Suc k - 1) (t[i := (t ! i)[k := dp_cell xs ys t i k]])"
      using tableUpTo_cell [of xs ys i k t] i by simp
  qed
  then have "tableUpTo xs ys i (length ys) (dp_row xs ys d i)"
    by (simp add: dp_row_def)
  then show ?thesis
    unfolding tableUpTo_def by (auto simp: less_Suc_eq lcsScore_Nil)
qed

lemma tableUpTo_table: "tableUpTo xs ys (length xs + 1) 0 (dp_table xs ys)"
  unfolding dp_table_def
proof (rule foldl_upt_invariant [where P = "\<lambda>k t. tableUpTo xs ys k 0 t"])
  show "1 \<le> length xs + 1" by simp
  show "tableUpTo xs ys 1 0 (dp_init (length xs) (length ys))" by (rule tableUpTo_init)
next
  fix k t
  assume "1 \<le> k" "k < length xs + 1" "tableUpTo xs ys k 0 t"
  then show "tableUpTo xs ys (Suc k) 0 (dp_row xs ys t k)"
    using tableUpTo_row [of xs ys k t] by simp
qed

lemma dp_table_lcsScore:
  "i \<le> length xs \<Longrightarrow> j \<le> length ys \<Longrightarrow>
   dp_table xs ys ! i ! j = lcsScore (take i xs) (take j ys)"
  using tableUpTo_table [of xs ys] unfolding tableUpTo_def by auto


text \<open>What the backtrack puts in front of \<open>result\<close> does not depend on \<open>result\<close>.\<close>

lemma backtrack_result_append:
  "backtrack oldItems newItems dp i j result = backtrack oldItems newItems dp i j [] @ result"
proof (induction "i + j" arbitrary: i j result rule: less_induct)
  case less
  let ?eq = "diff (oldItems ! (i - 1)) = diff (newItems ! (j - 1))"
  let ?ge = "dp ! i ! (j - 1) \<ge> dp ! (i - 1) ! j"
  let ?u = "\<lparr>type = unchanged, oldItem = Some (oldItems ! (i - 1)),
              newItem = Some (newItems ! (j - 1))\<rparr>"
  let ?a = "\<lparr>type = added, oldItem = None, newItem = Some (newItems ! (j - 1))\<rparr>"
  let ?r = "\<lparr>type = removed, oldItem = Some (oldItems ! (i - 1)), newItem = None\<rparr>"
  consider (stop) "i = 0" "j = 0"
    | (match) "0 < i" "0 < j" "?eq"
    | (add) "0 < j" "\<not> (0 < i \<and> ?eq)" "i = 0 \<or> ?ge"
    | (remove) "0 < i" "\<not> (0 < j \<and> ?eq)" "\<not> (0 < j \<and> ?ge)"
    by (cases "i = 0"; cases "j = 0"; cases "?eq"; cases "?ge") auto
  then show ?case
  proof cases
    case stop
    then show ?thesis by (simp add: backtrack_stop)
  next
    case match
    then have m: "(i - 1) + (j - 1) < i + j" by simp
    have "backtrack oldItems newItems dp i j result =
          backtrack oldItems newItems dp (i - 1) (j - 1) (?u # result)"
      using match by (rule backtrack_match)
    also have "\<dots> = backtrack oldItems newItems dp (i - 1) (j - 1) [] @ ?u # result"
      by (rule less [OF m])
    also have "\<dots> = (backtrack oldItems newItems dp (i - 1) (j - 1) [] @ [?u]) @ result"
      by simp
    also have "backtrack oldItems newItems dp (i - 1) (j - 1) [] @ [?u] =
               backtrack oldItems newItems dp (i - 1) (j - 1) [?u]"
      by (rule less [OF m, symmetric])
    also have "\<dots> = backtrack oldItems newItems dp i j []"
      using match by (rule backtrack_match [symmetric])
    finally show ?thesis .
  next
    case add
    then have m: "i + (j - 1) < i + j" by simp
    have "backtrack oldItems newItems dp i j result =
          backtrack oldItems newItems dp i (j - 1) (?a # result)"
      using add by (rule backtrack_add)
    also have "\<dots> = backtrack oldItems newItems dp i (j - 1) [] @ ?a # result"
      by (rule less [OF m])
    also have "\<dots> = (backtrack oldItems newItems dp i (j - 1) [] @ [?a]) @ result"
      by simp
    also have "backtrack oldItems newItems dp i (j - 1) [] @ [?a] =
               backtrack oldItems newItems dp i (j - 1) [?a]"
      by (rule less [OF m, symmetric])
    also have "\<dots> = backtrack oldItems newItems dp i j []"
      using add by (rule backtrack_add [symmetric])
    finally show ?thesis .
  next
    case remove
    then have m: "(i - 1) + j < i + j" by simp
    have "backtrack oldItems newItems dp i j result =
          backtrack oldItems newItems dp (i - 1) j (?r # result)"
      using remove by (rule backtrack_remove)
    also have "\<dots> = backtrack oldItems newItems dp (i - 1) j [] @ ?r # result"
      by (rule less [OF m])
    also have "\<dots> = (backtrack oldItems newItems dp (i - 1) j [] @ [?r]) @ result"
      by simp
    also have "backtrack oldItems newItems dp (i - 1) j [] @ [?r] =
               backtrack oldItems newItems dp (i - 1) j [?r]"
      by (rule less [OF m, symmetric])
    also have "\<dots> = backtrack oldItems newItems dp i j []"
      using remove by (rule backtrack_remove [symmetric])
    finally show ?thesis .
  qed
qed

text \<open>
  The backtrack from \<open>(i, j)\<close> reads the first \<open>i\<close> old items, the first \<open>j\<close> new
  items and the cells of the table up to row \<open>i\<close> and column \<open>j\<close>, and nothing else.
\<close>

lemma backtrack_cong:
  assumes "\<forall>r < i. xs ! r = xs' ! r" and "\<forall>c < j. ys ! c = ys' ! c"
    and "\<forall>r \<le> i. \<forall>c \<le> j. dp ! r ! c = dp' ! r ! c"
  shows "backtrack xs ys dp i j result = backtrack xs' ys' dp' i j result"
  using assms
proof (induction "i + j" arbitrary: i j result rule: less_induct)
  case less
  let ?eq = "diff (xs ! (i - 1)) = diff (ys ! (j - 1))"
  let ?ge = "dp ! i ! (j - 1) \<ge> dp ! (i - 1) ! j"
  let ?eq' = "diff (xs' ! (i - 1)) = diff (ys' ! (j - 1))"
  let ?ge' = "dp' ! i ! (j - 1) \<ge> dp' ! (i - 1) ! j"
  have x: "0 < i \<Longrightarrow> xs ! (i - 1) = xs' ! (i - 1)" using less.prems(1) by simp
  have y: "0 < j \<Longrightarrow> ys ! (j - 1) = ys' ! (j - 1)" using less.prems(2) by simp
  have d1: "0 < j \<Longrightarrow> dp ! i ! (j - 1) = dp' ! i ! (j - 1)" using less.prems(3) by simp
  have d2: "0 < i \<Longrightarrow> dp ! (i - 1) ! j = dp' ! (i - 1) ! j" using less.prems(3) by simp
  consider (stop) "i = 0" "j = 0"
    | (match) "0 < i" "0 < j" "?eq"
    | (add) "0 < j" "\<not> (0 < i \<and> ?eq)" "i = 0 \<or> ?ge"
    | (remove) "0 < i" "\<not> (0 < j \<and> ?eq)" "\<not> (0 < j \<and> ?ge)"
    by (cases "i = 0"; cases "j = 0"; cases "?eq"; cases "?ge") auto
  then show ?case
  proof cases
    case stop
    then show ?thesis by (simp add: backtrack_stop)
  next
    case match
    then have m: "(i - 1) + (j - 1) < i + j" by simp
    have eq': "?eq'" using match x y by simp
    have "backtrack xs ys dp (i - 1) (j - 1)
            (\<lparr>type = unchanged, oldItem = Some (xs ! (i - 1)),
              newItem = Some (ys ! (j - 1))\<rparr> # result) =
          backtrack xs' ys' dp' (i - 1) (j - 1)
            (\<lparr>type = unchanged, oldItem = Some (xs ! (i - 1)),
              newItem = Some (ys ! (j - 1))\<rparr> # result)"
      using less.prems by (intro less.hyps [OF m]) auto
    then show ?thesis
      using match eq' x y
      by (simp add: backtrack_match [of i j xs ys] backtrack_match [of i j xs' ys'])
  next
    case add
    then have m: "i + (j - 1) < i + j" by simp
    have c': "\<not> (0 < i \<and> ?eq')" "i = 0 \<or> ?ge'"
    proof -
      show "\<not> (0 < i \<and> ?eq')"
      proof (cases "0 < i")
        case True
        then show ?thesis using add(1,2) x y by simp
      next
        case False
        then show ?thesis by simp
      qed
      show "i = 0 \<or> ?ge'"
      proof (cases "0 < i")
        case True
        then show ?thesis using add(1,3) d1 d2 by simp
      next
        case False
        then show ?thesis by simp
      qed
    qed
    have "backtrack xs ys dp i (j - 1)
            (\<lparr>type = added, oldItem = None, newItem = Some (ys ! (j - 1))\<rparr> # result) =
          backtrack xs' ys' dp' i (j - 1)
            (\<lparr>type = added, oldItem = None, newItem = Some (ys ! (j - 1))\<rparr> # result)"
      using less.prems by (intro less.hyps [OF m]) auto
    then show ?thesis
      using backtrack_add [OF add(1) add(2) add(3), of result]
        backtrack_add [OF add(1) c'(1) c'(2), of result] y add(1)
      by simp
  next
    case remove
    then have m: "(i - 1) + j < i + j" by simp
    have c': "\<not> (0 < j \<and> ?eq')" "\<not> (0 < j \<and> ?ge')"
    proof -
      show "\<not> (0 < j \<and> ?eq')"
      proof (cases "0 < j")
        case True
        then show ?thesis using remove(1,2) x y by simp
      next
        case False
        then show ?thesis by simp
      qed
      show "\<not> (0 < j \<and> ?ge')"
      proof (cases "0 < j")
        case True
        then show ?thesis using remove(1,3) d1 d2 by simp
      next
        case False
        then show ?thesis by simp
      qed
    qed
    have "backtrack xs ys dp (i - 1) j
            (\<lparr>type = removed, oldItem = Some (xs ! (i - 1)), newItem = None\<rparr> # result) =
          backtrack xs' ys' dp' (i - 1) j
            (\<lparr>type = removed, oldItem = Some (xs ! (i - 1)), newItem = None\<rparr> # result)"
      using less.prems by (intro less.hyps [OF m]) auto
    then show ?thesis
      using backtrack_remove [OF remove(1) remove(2) remove(3), of result]
        backtrack_remove [OF remove(1) c'(1) c'(2), of result] x remove(1)
      by simp
  qed
qed

text \<open>
  So the backtrack of the whole input from \<open>(i, j)\<close> returns the script of the first
  \<open>i\<close> old and the first \<open>j\<close> new items.
\<close>

lemma backtrack_prefix:
  assumes i: "i \<le> length xs" and j: "j \<le> length ys"
  shows "backtrack xs ys (dp_table xs ys) i j [] = computeDiff (take i xs) (take j ys)"
proof -
  have "backtrack xs ys (dp_table xs ys) i j [] =
        backtrack (take i xs) (take j ys) (dp_table (take i xs) (take j ys)) i j []"
  proof (rule backtrack_cong)
    show "\<forall>r<i. xs ! r = take i xs ! r" by simp
    show "\<forall>c<j. ys ! c = take j ys ! c" by simp
    show "\<forall>r\<le>i. \<forall>c\<le>j. dp_table xs ys ! r ! c = dp_table (take i xs) (take j ys) ! r ! c"
    proof (intro allI impI)
      fix r c assume r: "r \<le> i" and c: "c \<le> j"
      have "dp_table xs ys ! r ! c = lcsScore (take r xs) (take c ys)"
        using r c i j by (intro dp_table_lcsScore) auto
      moreover have "dp_table (take i xs) (take j ys) ! r ! c =
                     lcsScore (take r (take i xs)) (take c (take j ys))"
        using r c i j by (intro dp_table_lcsScore) auto
      ultimately show "dp_table xs ys ! r ! c = dp_table (take i xs) (take j ys) ! r ! c"
        using r c by (simp add: min_absorb1)
    qed
  qed
  then show ?thesis using i j by (simp add: computeDiff_def min_absorb2)
qed



lemma dp_table_skip_scores:
  "dp_table (xs @ [x]) (ys @ [y]) ! (length xs + 1) ! length ys = lcsScore (xs @ [x]) ys"
  "dp_table (xs @ [x]) (ys @ [y]) ! length xs ! (length ys + 1) = lcsScore xs (ys @ [y])"
  using dp_table_lcsScore [of "length xs + 1" "xs @ [x]" "length ys" "ys @ [y]"]
    dp_table_lcsScore [of "length xs" "xs @ [x]" "length ys + 1" "ys @ [y]"]
  by simp_all


lemma computeDiff_snoc_removed:
  assumes "diff x \<noteq> diff y" and "lcsScore (xs @ [x]) ys < lcsScore xs (ys @ [y])"
  shows "computeDiff (xs @ [x]) (ys @ [y]) =
           computeDiff xs (ys @ [y]) @ [\<lparr>type = removed, oldItem = Some x, newItem = None\<rparr>]"
proof -
  let ?xs = "xs @ [x]" and ?ys = "ys @ [y]"
  let ?dp = "dp_table ?xs ?ys"
  let ?r = "\<lparr>type = removed, oldItem = Some x, newItem = None\<rparr>"
  have lt: "\<not> ?dp ! (length xs + 1) ! (length ys + 1 - 1) \<ge> ?dp ! (length xs + 1 - 1) ! (length ys + 1)"
    using assms(2) dp_table_skip_scores [of xs x ys y] by simp
  have "computeDiff ?xs ?ys = backtrack ?xs ?ys ?dp (length xs + 1) (length ys + 1) []"
    by (simp add: computeDiff_def)
  also have "\<dots> = backtrack ?xs ?ys ?dp (length xs) (length ys + 1) [?r]"
    using assms(1) lt backtrack_remove [of "length xs + 1" "length ys + 1" ?xs ?ys ?dp "[]"] by simp
  also have "\<dots> = backtrack ?xs ?ys ?dp (length xs) (length ys + 1) [] @ [?r]"
    by (rule backtrack_result_append)
  also have "backtrack ?xs ?ys ?dp (length xs) (length ys + 1) [] =
             computeDiff (take (length xs) ?xs) (take (length ys + 1) ?ys)"
    by (rule backtrack_prefix) simp_all
  finally show ?thesis by simp
qed

section \<open>The tie-break of the backtrack\<close>



section \<open>The tokenizer: proofs\<close>

lemma matchAt_Some: "s \<noteq> [] \<Longrightarrow> \<exists>t rest. matchAt s = Some (t, rest) \<and> t \<noteq> [] \<and> t @ rest = s"
  by (cases s) (auto simp: isWordOrApostrophe_def)

lemma concat_matchAll: "concat (matchAll s) = s"
proof (induction s rule: matchAll.induct)
  case (1 s)
  show ?case
  proof (cases "s = []")
    case True
    then show ?thesis by (simp add: matchAll.simps)
  next
    case False
    then obtain t rest where m: "matchAt s = Some (t, rest)" "t @ rest = s"
      using matchAt_Some by blast
    have "concat (matchAll rest) = rest"
      using "1.IH" False m(1) by fastforce
    with False m show ?thesis by (simp add: matchAll.simps [of s])
  qed
qed

lemma matchAt_other_single:
  assumes m: "matchAt s = Some (t, rest)" and c: "c \<in> set t" and o: "isOther c"
  shows "t = [c]"
proof (cases s)
  case Nil
  with m show ?thesis by simp
next
  case (Cons a as)
  have nw: "\<not> isWordOrApostrophe c" and ns: "\<not> isSpace c"
    using o by (simp_all add: isOther_def isWordOrApostrophe_def)
  have "t = [a] \<or> t = takeWhile isWordOrApostrophe s \<or> t = takeWhile isSpace s"
    using m Cons by (auto split: if_splits)
  then show ?thesis
  proof (elim disjE)
    assume "t = [a]"
    with c show ?thesis by simp
  next
    assume "t = takeWhile isWordOrApostrophe s"
    with c nw show ?thesis by (auto dest: set_takeWhileD)
  next
    assume "t = takeWhile isSpace s"
    with c ns show ?thesis by (auto dest: set_takeWhileD)
  qed
qed

lemma matchAt_decompose:
  assumes "matchAt s = Some (t, rest)"
  shows "t @ rest = s \<and> t \<noteq> []"
  using assms by (cases s) (auto split: if_splits)

lemma matchAll_others:
  "filter (list_ex isOther) (matchAll s) = map (\<lambda>c. [c]) (filter isOther s)"
proof (induction s rule: matchAll.induct)
  case (1 s)
  show ?case
  proof (cases "s = []")
    case True
    then show ?thesis by (simp add: matchAll.simps)
  next
    case False
    then obtain t rest where m: "matchAt s = Some (t, rest)"
      using matchAt_Some by blast
    then have d: "t @ rest = s" by (simp add: matchAt_decompose)
    have ih: "filter (list_ex isOther) (matchAll rest) = map (\<lambda>c. [c]) (filter isOther rest)"
      using "1.IH" False m by fastforce
    have all: "matchAll s = t # matchAll rest"
      using False m by (simp add: matchAll.simps [of s])
    show ?thesis
    proof (cases "list_ex isOther t")
      case True
      then obtain c where c: "c \<in> set t" "isOther c" by (auto simp: list_ex_iff)
      then have "t = [c]" using m by (simp add: matchAt_other_single)
      then show ?thesis using all ih d c(2) True by auto
    next
      case False
      then have "filter isOther t = []" by (auto simp: list_ex_iff filter_empty_conv)
      then show ?thesis using all ih d False by auto
    qed
  qed
qed

lemma render_tokenize:
  "map render (tokenize E st S) =
     filter (\<lambda>t. \<not> (ignorePunctuation st \<and> pureClass (punctOrSymbol E) t) \<and>
                 \<not> (ignoreWhitespace st \<and> pureClass isSpace t)) (matchAll S)"
proof (cases "S = []")
  case True
  then show ?thesis by (simp add: tokenize_def matchAll.simps)
next
  case False
  then show ?thesis
    by (simp add: tokenize_def filter_map o_def) (rule filter_cong, auto)
qed

lemma trim_all_space: "list_all isSpace r \<Longrightarrow> trim r = []"
proof -
  assume "list_all isSpace r"
  then show ?thesis by (auto simp: trim_def list_all_iff dest: set_dropWhileD)
qed

lemma foldWidth_space: "list_all isSpace r \<Longrightarrow> list_all isSpace (foldWidth r)"
  by (auto simp: foldWidth_def list_all_iff isSpace_def)

lemma last_dropWhile_eq: "dropWhile P xs \<noteq> [] \<Longrightarrow> last (dropWhile P xs) = last xs"
proof -
  assume a: "dropWhile P xs \<noteq> []"
  have "last xs = last (takeWhile P xs @ dropWhile P xs)" by simp
  also have "\<dots> = last (dropWhile P xs)" using a by (simp only: last_append if_False)
  finally show ?thesis by simp
qed

lemma trim_ends:
  "trim s = [] \<or> (\<not> isSpace (hd (trim s)) \<and> \<not> isSpace (last (trim s)))"
proof (cases "trim s = []")
  case True
  then show ?thesis by simp
next
  case False
  define u where "u = dropWhile isSpace s"
  define w where "w = dropWhile isSpace (rev u)"
  have t: "trim s = rev w" by (simp add: trim_def u_def w_def)
  with False have w: "w \<noteq> []" by simp
  then have "\<not> isSpace (hd w)" unfolding w_def by (rule hd_dropWhile)
  then have l: "\<not> isSpace (last (trim s))" using w t by (simp add: last_rev)
  have "u \<noteq> []" using w by (auto simp: w_def)
  then have "\<not> isSpace (hd u)" unfolding u_def by (rule hd_dropWhile)
  moreover have "last w = last (rev u)" using w unfolding w_def by (rule last_dropWhile_eq)
  ultimately have "\<not> isSpace (hd (trim s))" using w t \<open>u \<noteq> []\<close> by (simp add: hd_rev last_rev)
  with l show ?thesis by simp
qed

text \<open>
  Claim C4. For every string \<open>S\<close> and every settings value with ignore-punctuation and
  ignore-whitespace both off, the \<open>render\<close> fields of the tokens of \<open>tokenize S\<close>,
  concatenated in order, are \<open>S\<close> itself.
\<close>

theorem tokenize_roundtrip:
  "\<not> ignorePunctuation st \<Longrightarrow> \<not> ignoreWhitespace st \<Longrightarrow>
   concat (map render (tokenize E st S)) = S"
  by (simp add: tokenize_def o_def concat_matchAll)

theorem tokenize_roundtrip_witness:
  "\<not> ignorePunctuation exact \<and> \<not> ignoreWhitespace exact \<and>
   concat (map render (tokenize asciiEngine exact (lit ''it's  a-b!!''))) = lit ''it's  a-b!!''"
  using tokenize_roundtrip [of exact asciiEngine "lit ''it's  a-b!!''"]
  by (simp add: exact_def)

text \<open>
  Claim C7 says that, with ignore-whitespace off, the key of a white space token keeps its
  inner white space, so that a token of two spaces and a token of one space can have
  different keys. In the source the key is trimmed, and a white space token is all leading
  white space: for each of the four settings with ignore-whitespace off, the key of two
  spaces and the key of one space are the same.
\<close>

theorem getDiffKey_spaces_counterexample:
  "getDiffKey asciiEngine
     \<lparr>ignoreCase = False, ignorePunctuation = False, ignoreWhitespace = False\<rparr> [0x20, 0x20] =
   getDiffKey asciiEngine
     \<lparr>ignoreCase = False, ignorePunctuation = False, ignoreWhitespace = False\<rparr> [0x20] \<and>
   getDiffKey asciiEngine
     \<lparr>ignoreCase = True, ignorePunctuation = False, ignoreWhitespace = False\<rparr> [0x20, 0x20] =
   getDiffKey asciiEngine
     \<lparr>ignoreCase = True, ignorePunctuation = False, ignoreWhitespace = False\<rparr> [0x20] \<and>
   getDiffKey asciiEngine
     \<lparr>ignoreCase = False, ignorePunctuation = True, ignoreWhitespace = False\<rparr> [0x20, 0x20] =
   getDiffKey asciiEngine
     \<lparr>ignoreCase = False, ignorePunctuation = True, ignoreWhitespace = False\<rparr> [0x20] \<and>
   getDiffKey asciiEngine
     \<lparr>ignoreCase = True, ignorePunctuation = True, ignoreWhitespace = False\<rparr> [0x20, 0x20] =
   getDiffKey asciiEngine
     \<lparr>ignoreCase = True, ignorePunctuation = True, ignoreWhitespace = False\<rparr> [0x20]"
  by (simp add: getDiffKey_def asciiEngine_def foldWidth_def trim_def isSpace_def)

text \<open>
  Claim C7, amended. With ignore-whitespace off, a key has no white space at its front or
  at its end, and the key of every white space token is the empty string (whatever the
  number of spaces), provided lower-casing, when it is on, leaves white space white space.
\<close>

theorem getDiffKey_whitespace_run:
  assumes "\<not> ignoreWhitespace st"
  shows "(getDiffKey E st s = [] \<or>
            (\<not> isSpace (hd (getDiffKey E st s)) \<and> \<not> isSpace (last (getDiffKey E st s)))) \<and>
         (list_all isSpace r \<longrightarrow>
          (ignoreCase st \<longrightarrow> list_all isSpace (toLowerCase E (foldWidth r))) \<longrightarrow>
            getDiffKey E st r = [])"
proof
  show "getDiffKey E st s = [] \<or>
            (\<not> isSpace (hd (getDiffKey E st s)) \<and> \<not> isSpace (last (getDiffKey E st s)))"
    using assms trim_ends by (simp add: getDiffKey_def Let_def)
next
  show "list_all isSpace r \<longrightarrow>
          (ignoreCase st \<longrightarrow> list_all isSpace (toLowerCase E (foldWidth r))) \<longrightarrow>
            getDiffKey E st r = []"
  proof (intro impI)
    assume r: "list_all isSpace r"
      and low: "ignoreCase st \<longrightarrow> list_all isSpace (toLowerCase E (foldWidth r))"
    define k where "k = (if ignoreCase st then toLowerCase E (foldWidth r) else foldWidth r)"
    have "list_all isSpace k" using r low foldWidth_space by (simp add: k_def)
    then have "list_all isSpace
        (if ignorePunctuation st then filter (\<lambda>c. \<not> punctOrSymbol E c) k else k)"
      by (simp add: list_all_iff)
    then have "trim (if ignorePunctuation st then filter (\<lambda>c. \<not> punctOrSymbol E c) k else k) = []"
      by (rule trim_all_space)
    moreover have "getDiffKey E st r =
        trim (if ignorePunctuation st then filter (\<lambda>c. \<not> punctOrSymbol E c) k else k)"
      using assms by (simp add: getDiffKey_def Let_def k_def)
    ultimately show "getDiffKey E st r = []" by simp
  qed
qed

text \<open>
  With lower-casing on: two spaces have the empty key, and the key of \<open>" A  b "\<close> is
  \<open>"a  b"\<close>, trimmed at both ends and with its two inner spaces.
\<close>

theorem getDiffKey_whitespace_run_witness:
  "\<not> ignoreWhitespace (exact\<lparr>ignoreCase := True\<rparr>) \<and>
   list_all isSpace [0x20, 0x20] \<and>
   list_all isSpace (toLowerCase asciiEngine (foldWidth [0x20, 0x20])) \<and>
   getDiffKey asciiEngine (exact\<lparr>ignoreCase := True\<rparr>) [0x20, 0x20] = [] \<and>
   getDiffKey asciiEngine (exact\<lparr>ignoreCase := True\<rparr>) (lit '' A  b '') = lit ''a  b'' \<and>
   \<not> isSpace (hd (lit ''a  b'')) \<and> \<not> isSpace (last (lit ''a  b''))"
  using getDiffKey_whitespace_run
    [of "exact\<lparr>ignoreCase := True\<rparr>" asciiEngine "lit '' A  b ''" "[0x20, 0x20]"]
  by (simp add: exact_def getDiffKey_def asciiEngine_def foldWidth_def trim_def isSpace_def
      lit_def)

text \<open>
  Claim C8 says that a maximal run of punctuation or symbol characters is one token. The
  third alternative of the expression takes a single character (the comment in the source
  says so), so the run \<open>"!!"\<close> gives two tokens.
\<close>

theorem tokenize_run_counterexample:
  "map render (tokenize asciiEngine exact (lit ''!!'')) = [lit ''!'', lit ''!''] \<and>
   map render (tokenize asciiEngine exact (lit ''!!'')) \<noteq> [lit ''!!'']"
  by (simp add: tokenize_def matchAll.simps exact_def lit_def isCJK_def isWord_def isSpace_def
      isWordOrApostrophe_def)

text \<open>
  Claim C8, amended. For every input string and all settings: the tokens that
  \<^verbatim>\<open>tokenize\<close> emits and that hold a punctuation or symbol character (a character that
  is not white space, not a word character, not an apostrophe and not a CJK ideograph) are,
  in the order of the input, exactly one token of a single character for each such
  character of the input, also inside a run of them; except that with ignore-punctuation
  on, those of these characters that the engine classes as punctuation or symbol are
  dropped. And with ignore-punctuation and ignore-whitespace both off no input character is
  skipped.
\<close>

theorem tokenize_punctuation_single:
  "filter (list_ex isOther) (map render (tokenize E st S)) =
     map (\<lambda>c. [c])
       (filter (\<lambda>c. isOther c \<and> \<not> (ignorePunctuation st \<and> punctOrSymbol E c)) S) \<and>
   (\<not> ignorePunctuation st \<and> \<not> ignoreWhitespace st \<longrightarrow>
      concat (map render (tokenize E st S)) = S)"
proof
  let ?keep = "\<lambda>t. \<not> (ignorePunctuation st \<and> pureClass (punctOrSymbol E) t) \<and>
                 \<not> (ignoreWhitespace st \<and> pureClass isSpace t)"
  have "filter (list_ex isOther) (map render (tokenize E st S)) =
        filter ?keep (filter (list_ex isOther) (matchAll S))"
    by (simp add: render_tokenize conj_commute)
  also have "\<dots> = filter ?keep (map (\<lambda>c. [c]) (filter isOther S))"
    by (simp only: matchAll_others)
  also have "\<dots> = map (\<lambda>c. [c]) (filter (\<lambda>c. ?keep [c]) (filter isOther S))"
    by (simp add: filter_map o_def)
  also have "filter (\<lambda>c. ?keep [c]) (filter isOther S) =
             filter (\<lambda>c. isOther c \<and> \<not> (ignorePunctuation st \<and> punctOrSymbol E c)) S"
    by (simp, rule filter_cong) (auto simp: pureClass_def isOther_def)
  finally show "filter (list_ex isOther) (map render (tokenize E st S)) =
     map (\<lambda>c. [c])
       (filter (\<lambda>c. isOther c \<and> \<not> (ignorePunctuation st \<and> punctOrSymbol E c)) S)" .
next
  show "\<not> ignorePunctuation st \<and> \<not> ignoreWhitespace st \<longrightarrow>
      concat (map render (tokenize E st S)) = S"
    by (simp add: tokenize_def o_def concat_matchAll)
qed

text \<open>
  The input \<open>"a!! b-"\<close>: with all flags off, its three punctuation characters come out
  as three tokens and the tokens make up the input; with ignore-whitespace alone they come
  out all the same; with ignore-punctuation on they are dropped.
\<close>

theorem tokenize_punctuation_single_witness:
  "filter (list_ex isOther) (map render (tokenize asciiEngine exact (lit ''a!! b-''))) =
     [lit ''!'', lit ''!'', lit ''-''] \<and>
   \<not> ignorePunctuation exact \<and> \<not> ignoreWhitespace exact \<and>
   concat (map render (tokenize asciiEngine exact (lit ''a!! b-''))) = lit ''a!! b-'' \<and>
   filter (list_ex isOther)
     (map render (tokenize asciiEngine (exact\<lparr>ignoreWhitespace := True\<rparr>) (lit ''a!! b-''))) =
     [lit ''!'', lit ''!'', lit ''-''] \<and>
   filter (list_ex isOther)
     (map render (tokenize asciiEngine (exact\<lparr>ignorePunctuation := True\<rparr>) (lit ''a!! b-''))) =
     []"
  using tokenize_punctuation_single [of asciiEngine exact "lit ''a!! b-''"]
    tokenize_punctuation_single [of asciiEngine "exact\<lparr>ignoreWhitespace := True\<rparr>" "lit ''a!! b-''"]
    tokenize_punctuation_single [of asciiEngine "exact\<lparr>ignorePunctuation := True\<rparr>" "lit ''a!! b-''"]
  by (simp add: exact_def lit_def asciiEngine_def isOther_def isCJK_def isWord_def isSpace_def)

section \<open>The password generator: proofs\<close>

lemma getSecureRandomInt_range:
  "getSecureRandomInt maxN tape = Some (k, tape') \<Longrightarrow> 0 < maxN \<Longrightarrow> k < maxN"
  by (induction tape) (auto split: if_splits)

lemma charAt_in: "k < length s \<Longrightarrow> \<exists>x\<in>set s. charAt s k = [x]"
  by (simp add: charAt_def)

lemma pickEach_picks:
  "pickEach ps tape = Some (cs, tape') \<Longrightarrow> \<forall>p\<in>set ps. p \<noteq> [] \<Longrightarrow>
   list_all2 (\<lambda>p c. \<exists>x\<in>set p. c = [x]) ps cs"
proof (induction ps arbitrary: tape cs)
  case Nil
  then show ?case by simp
next
  case (Cons p ps)
  from Cons.prems(1) obtain k t1 cs1 where
    d: "getSecureRandomInt (length p) tape = Some (k, t1)" and
    r: "pickEach ps t1 = Some (cs1, tape')" and
    c: "cs = charAt p k # cs1"
    by (auto split: option.splits)
  have "k < length p" using d Cons.prems(2) getSecureRandomInt_range by fastforce
  then have "\<exists>x\<in>set p. charAt p k = [x]" by (rule charAt_in)
  moreover have "list_all2 (\<lambda>p c. \<exists>x\<in>set p. c = [x]) ps cs1"
    using Cons.IH [OF r] Cons.prems(2) by simp
  ultimately show ?case using c by simp
qed

lemma fillRemaining_fills:
  "fillRemaining fullCharset targetLength i passwordChars tape = Some (cs, tape') \<Longrightarrow>
   fullCharset \<noteq> [] \<Longrightarrow> i = length passwordChars \<Longrightarrow>
   (\<exists>extra. cs = passwordChars @ extra \<and> (\<forall>e\<in>set extra. \<exists>x\<in>set fullCharset. e = [x])) \<and>
   int (length cs) = max (int (length passwordChars)) targetLength"
proof (induction fullCharset targetLength i passwordChars tape rule: fillRemaining.induct)
  case (1 fullCharset targetLength i passwordChars tape)
  show ?case
  proof (cases "int i < targetLength")
    case False
    with "1.prems" show ?thesis by (simp add: fillRemaining.simps)
  next
    case True
    with "1.prems"(1) obtain k t1 where
      d: "getSecureRandomInt (length fullCharset) tape = Some (k, t1)" and
      r: "fillRemaining fullCharset targetLength (i + 1)
            (passwordChars @ [charAt fullCharset k]) t1 = Some (cs, tape')"
      by (subst (asm) fillRemaining.simps) (auto split: option.splits)
    have "k < length fullCharset" using d "1.prems"(2) getSecureRandomInt_range by fastforce
    then obtain x where x: "x \<in> set fullCharset" "charAt fullCharset k = [x]"
      using charAt_in by blast
    have ih: "(\<exists>extra. cs = (passwordChars @ [charAt fullCharset k]) @ extra \<and>
                 (\<forall>e\<in>set extra. \<exists>x\<in>set fullCharset. e = [x])) \<and>
              int (length cs) = max (int (length (passwordChars @ [charAt fullCharset k]))) targetLength"
      using "1.IH" [OF True d refl r "1.prems"(2)] "1.prems"(3) by simp
    then obtain extra where e: "cs = (passwordChars @ [charAt fullCharset k]) @ extra"
        "\<forall>e\<in>set extra. \<exists>x\<in>set fullCharset. e = [x]" by blast
    have "cs = passwordChars @ ([x] # extra)" using e(1) x(2) by simp
    moreover have "\<forall>e\<in>set ([x] # extra). \<exists>x\<in>set fullCharset. e = [x]" using e(2) x(1) by simp
    moreover have "int (length cs) = max (int (length passwordChars)) targetLength"
      using ih True "1.prems"(3) by simp
    ultimately show ?thesis by blast
  qed
qed

lemma shuffle_permutes:
  "shuffle i passwordChars tape = Some (cs, tape') \<Longrightarrow> i < length passwordChars \<or> i = 0 \<Longrightarrow>
   set cs = set passwordChars \<and> length cs = length passwordChars"
proof (induction i passwordChars tape rule: shuffle.induct)
  case (1 i passwordChars tape)
  show ?case
  proof (cases "i > 0")
    case False
    with "1.prems" show ?thesis by (simp add: shuffle.simps)
  next
    case True
    with "1.prems"(1) obtain j t1 where
      d: "getSecureRandomInt (i + 1) tape = Some (j, t1)" and
      r: "shuffle (i - 1) ((passwordChars[i := passwordChars ! j])[j := passwordChars ! i]) t1 =
            Some (cs, tape')"
      by (subst (asm) shuffle.simps) (auto split: option.splits)
    have i: "i < length passwordChars" using True "1.prems"(2) by simp
    have "j < i + 1" using d getSecureRandomInt_range by fastforce
    then have j: "j < length passwordChars" using i by simp
    have sw: "set ((passwordChars[i := passwordChars ! j])[j := passwordChars ! i]) = set passwordChars"
      using i j by (rule set_swap)
    have "set cs = set ((passwordChars[i := passwordChars ! j])[j := passwordChars ! i]) \<and>
          length cs = length ((passwordChars[i := passwordChars ! j])[j := passwordChars ! i])"
      proof (rule "1.IH" [OF True d refl r])
      show "i - 1 < length ((passwordChars[i := passwordChars ! j])[j := passwordChars ! i]) \<or> i - 1 = 0"
        using i by (simp, arith)
    qed
    with sw show ?thesis by simp
  qed
qed

lemma length_concat_singletons:
  "\<forall>e\<in>set xs. length e = 1 \<Longrightarrow> length (concat xs) = length xs"
  by (induction xs) simp_all

lemma sanitize_length: "length (sanitize options charset) \<le> length charset"
proof -
  have "length (foldl (\<lambda>result char. filter (\<lambda>c. c \<noteq> char) result) charset amb) \<le> length charset" for amb
  proof (induction amb arbitrary: charset)
    case Nil
    show ?case by simp
  next
    case (Cons a amb)
    have "length (foldl (\<lambda>result char. filter (\<lambda>c. c \<noteq> char) result) (filter (\<lambda>c. c \<noteq> a) charset) amb)
          \<le> length (filter (\<lambda>c. c \<noteq> a) charset)" by (rule Cons.IH)
    also have "\<dots> \<le> length charset" by simp
    finally show ?case by simp
  qed
  then show ?thesis by (simp add: sanitize_def)
qed

lemma pools_nonempty: "\<forall>p\<in>set (pools options). p \<noteq> []"
  by (auto simp: pools_def sanitize_def CHARSETS_uppercase_def CHARSETS_lowercase_def
      CHARSETS_numbers_def CHARSETS_symbols_def CHARSETS_ambiguous_def lit_def)

lemma pools_valid: "isValid options \<Longrightarrow> pools options \<noteq> []"
  by (auto simp: isValid_def pools_def)

lemma getSecureRandomInt_accept:
  assumes "0 < maxN" and "unat v + maxN \<le> 0xffffffff"
  shows "getSecureRandomInt maxN (v # tape) = Some (unat v mod maxN, tape)"
proof -
  have "0xffffffff mod maxN < maxN" using assms(1) by simp
  moreover have "(0xffffffff div maxN) * maxN + 0xffffffff mod maxN = (0xffffffff :: nat)"
    by (rule div_mult_mod_eq)
  ultimately have "unat v < (0xffffffff div maxN) * maxN" using assms(2) by linarith
  then show ?thesis using assms(1) by simp
qed

lemma acceptedBy_Cons: "acceptedBy B (v # tape) \<longleftrightarrow> unat v + B \<le> 0xffffffff \<and> acceptedBy B tape"
  by (simp add: acceptedBy_def)

lemma pickEach_returns:
  "\<forall>p\<in>set ps. 0 < length p \<and> length p \<le> B \<Longrightarrow> acceptedBy B tape \<Longrightarrow>
   length ps \<le> length tape \<Longrightarrow>
   \<exists>cs. pickEach ps tape = Some (cs, drop (length ps) tape)"
proof (induction ps arbitrary: tape)
  case Nil
  then show ?case by simp
next
  case (Cons p ps)
  from Cons.prems(3) obtain v t1 where t: "tape = v # t1" by (cases tape) auto
  have "unat v + length p \<le> 0xffffffff"
    using Cons.prems(1,2) t by (simp add: acceptedBy_Cons)
  then have d: "getSecureRandomInt (length p) tape = Some (unat v mod length p, t1)"
    using Cons.prems(1) t getSecureRandomInt_accept by simp
  have "\<exists>cs. pickEach ps t1 = Some (cs, drop (length ps) t1)"
    using Cons.IH [of t1] Cons.prems t by (simp add: acceptedBy_Cons)
  then show ?case using d t by auto
qed

lemma fillRemaining_returns:
  "0 < length fullCharset \<Longrightarrow> length fullCharset \<le> B \<Longrightarrow> acceptedBy B tape \<Longrightarrow>
   nat (targetLength - int i) \<le> length tape \<Longrightarrow>
   \<exists>cs. fillRemaining fullCharset targetLength i passwordChars tape =
          Some (cs, drop (nat (targetLength - int i)) tape)"
proof (induction fullCharset targetLength i passwordChars tape rule: fillRemaining.induct)
  case (1 fullCharset targetLength i passwordChars tape)
  show ?case
  proof (cases "int i < targetLength")
    case False
    then show ?thesis by (simp add: fillRemaining.simps)
  next
    case True
    with "1.prems"(4) obtain v t1 where t: "tape = v # t1" by (cases tape) auto
    have "unat v + length fullCharset \<le> 0xffffffff"
      using "1.prems"(2,3) t by (simp add: acceptedBy_Cons)
    then have d: "getSecureRandomInt (length fullCharset) tape =
                    Some (unat v mod length fullCharset, t1)"
      using "1.prems"(1) t getSecureRandomInt_accept by simp
    have n: "nat (targetLength - int i) = Suc (nat (targetLength - int (i + 1)))"
      using True by simp
    have "\<exists>cs. fillRemaining fullCharset targetLength (i + 1)
             (passwordChars @ [charAt fullCharset (unat v mod length fullCharset)]) t1 =
            Some (cs, drop (nat (targetLength - int (i + 1))) t1)"
    proof (rule "1.IH" [OF True d refl "1.prems"(1,2)])
      show "acceptedBy B t1" using "1.prems"(3) t by (simp add: acceptedBy_Cons)
      show "nat (targetLength - int (i + 1)) \<le> length t1" using "1.prems"(4) t n by simp
    qed
    then show ?thesis
      using True d t n by (subst fillRemaining.simps) simp
  qed
qed

lemma shuffle_returns:
  "i + 1 \<le> B \<Longrightarrow> acceptedBy B tape \<Longrightarrow> i \<le> length tape \<Longrightarrow>
   \<exists>cs. shuffle i passwordChars tape = Some (cs, drop i tape)"
proof (induction i passwordChars tape rule: shuffle.induct)
  case (1 i passwordChars tape)
  show ?case
  proof (cases "i > 0")
    case False
    then show ?thesis by (simp add: shuffle.simps)
  next
    case True
    with "1.prems"(3) obtain v t1 where t: "tape = v # t1" by (cases tape) auto
    have "unat v + (i + 1) \<le> 0xffffffff"
      using "1.prems"(1,2) t by (simp add: acceptedBy_Cons)
    then have d: "getSecureRandomInt (i + 1) tape = Some (unat v mod (i + 1), t1)"
      using t getSecureRandomInt_accept [of "i + 1" v t1] by simp
    have n: "i = Suc (i - 1)" using True by simp
    have "\<exists>cs. shuffle (i - 1)
            ((passwordChars[i := passwordChars ! (unat v mod (i + 1))])
               [unat v mod (i + 1) := passwordChars ! i]) t1 = Some (cs, drop (i - 1) t1)"
    proof (rule "1.IH" [OF True d refl])
      show "i - 1 + 1 \<le> B" using "1.prems"(1) by simp
      show "acceptedBy B t1" using "1.prems"(2) t by (simp add: acceptedBy_Cons)
      show "i - 1 \<le> length t1" using "1.prems"(3) t by simp
    qed
    moreover have "drop i tape = drop (i - 1) t1" using t n by (metis drop_Suc_Cons)
    ultimately show ?thesis
      using True d by (subst shuffle.simps) simp
  qed
qed


lemma list_all2_pick:
  "list_all2 P xs ys \<Longrightarrow> x \<in> set xs \<Longrightarrow> \<exists>y\<in>set ys. P x y"
  by (induction rule: list_all2_induct) auto

lemma list_all2_picked:
  "list_all2 P xs ys \<Longrightarrow> y \<in> set ys \<Longrightarrow> \<exists>x\<in>set xs. P x y"
  by (induction rule: list_all2_induct) auto

lemma pools_length: "\<forall>p\<in>set (pools options). length p \<le> 91"
proof -
  have "length (sanitize options CHARSETS_uppercase) \<le> 26"
       "length (sanitize options CHARSETS_lowercase) \<le> 26"
       "length (sanitize options CHARSETS_numbers) \<le> 10"
       "length (sanitize options CHARSETS_symbols) \<le> 29"
    using sanitize_length [of options CHARSETS_uppercase] sanitize_length [of options CHARSETS_lowercase]
      sanitize_length [of options CHARSETS_numbers] sanitize_length [of options CHARSETS_symbols]
    by (simp_all add: CHARSETS_uppercase_def CHARSETS_lowercase_def CHARSETS_numbers_def
        CHARSETS_symbols_def lit_def)
  then show ?thesis by (auto simp: pools_def)
qed

lemma fullCharset_length: "length (concat (pools options)) \<le> 91"
proof -
  have "length (sanitize options CHARSETS_uppercase) \<le> 26"
       "length (sanitize options CHARSETS_lowercase) \<le> 26"
       "length (sanitize options CHARSETS_numbers) \<le> 10"
       "length (sanitize options CHARSETS_symbols) \<le> 29"
    using sanitize_length [of options CHARSETS_uppercase] sanitize_length [of options CHARSETS_lowercase]
      sanitize_length [of options CHARSETS_numbers] sanitize_length [of options CHARSETS_symbols]
    by (simp_all add: CHARSETS_uppercase_def CHARSETS_lowercase_def CHARSETS_numbers_def
        CHARSETS_symbols_def lit_def)
  then show ?thesis by (auto simp: pools_def)
qed

lemma pools_count: "length (pools options) \<le> 4"
  by (simp add: pools_def)

lemma fullCharset_nonempty: "isValid options \<Longrightarrow> concat (pools options) \<noteq> []"
  using pools_nonempty [of options] pools_valid [of options]
  by (cases "pools options") auto

lemma generate_unfold:
  assumes "isValid options"
  shows "generate options len tape =
     (case pickEach (pools options) tape of
        None \<Rightarrow> None
      | Some (cs1, t1) \<Rightarrow>
          (case fillRemaining (concat (pools options)) (max len (int (length cs1)))
                  (length cs1) cs1 t1 of
             None \<Rightarrow> None
           | Some (cs2, t2) \<Rightarrow>
               (case shuffle (length cs2 - 1) cs2 t2 of
                  None \<Rightarrow> None
                | Some (cs3, t3) \<Rightarrow> Some (concat cs3, t3))))"
proof -
  have "length (concat (pools options)) \<noteq> 0"
    using fullCharset_nonempty [OF assms] by simp
  then show ?thesis
    using assms unfolding generate_def Let_def by (simp only: if_False not_not if_True simp_thms)
qed

lemma generate_result:
  assumes v: "isValid options" and g: "generate options len tape = Some (pw, tape')"
  shows "int (length pw) = max len (int (length (pools options))) \<and>
         (\<forall>pool\<in>set (pools options). \<exists>c\<in>set pw. c \<in> set pool)"
proof -
  let ?full = "concat (pools options)"
  have full: "?full \<noteq> []" using v by (rule fullCharset_nonempty)
  from g obtain cs1 t1 cs2 t2 cs3 where
    p: "pickEach (pools options) tape = Some (cs1, t1)" and
    f: "fillRemaining ?full (max len (int (length cs1))) (length cs1) cs1 t1 = Some (cs2, t2)" and
    s: "shuffle (length cs2 - 1) cs2 t2 = Some (cs3, tape')" and
    pw: "pw = concat cs3"
    unfolding generate_unfold [OF v] by (auto split: option.splits)
  have a2: "list_all2 (\<lambda>p c. \<exists>x\<in>set p. c = [x]) (pools options) cs1"
    using p pools_nonempty by (rule pickEach_picks)
  then have l1: "length cs1 = length (pools options)" by (simp add: list_all2_lengthD)
  from fillRemaining_fills [OF f full refl] obtain extra where
    e: "cs2 = cs1 @ extra" "\<forall>e\<in>set extra. \<exists>x\<in>set ?full. e = [x]" and
    l2: "int (length cs2) = max (int (length cs1)) (max len (int (length cs1)))"
    by blast
  have "cs1 \<noteq> []" using l1 pools_valid [OF v] by auto
  then have "length cs2 - 1 < length cs2 \<or> length cs2 - 1 = 0" using e(1) by simp
  with s have sh: "set cs3 = set cs2" "length cs3 = length cs2"
    using shuffle_permutes by blast+
  have single: "\<forall>e\<in>set cs2. length e = 1"
  proof
    fix c assume "c \<in> set cs2"
    then consider "c \<in> set cs1" | "c \<in> set extra" using e(1) by auto
    then show "length c = 1"
    proof cases
      case 1
      from list_all2_picked [OF a2 1] obtain q where
        "q \<in> set (pools options)" "\<exists>x\<in>set q. c = [x]" ..
      then show ?thesis by auto
    next
      case 2
      with e(2) show ?thesis by auto
    qed
  qed
  then have "length (concat cs3) = length cs3"
    using sh(1) by (intro length_concat_singletons) simp
  then have len: "int (length pw) = max len (int (length (pools options)))"
    using pw sh(2) l2 l1 by simp
  have cov: "\<forall>pool\<in>set (pools options). \<exists>c\<in>set pw. c \<in> set pool"
  proof
    fix pool assume pool: "pool \<in> set (pools options)"
    from list_all2_pick [OF a2 pool] obtain c where
      "c \<in> set cs1" "\<exists>x\<in>set pool. c = [x]" ..
    then obtain x where x: "x \<in> set pool" "[x] \<in> set cs1" by auto
    then have "[x] \<in> set cs3" using e(1) sh(1) by simp
    moreover have "x \<in> set [x]" by simp
    ultimately have "\<exists>e\<in>set cs3. x \<in> set e" by (rule bexI [rotated])
    then have "x \<in> set pw" using pw by simp
    with x(1) show "\<exists>c\<in>set pw. c \<in> set pool" by blast
  qed
  from len cov show ?thesis by simp
qed

lemma acceptedBy_drop: "acceptedBy B tape \<Longrightarrow> acceptedBy B (drop n tape)"
  by (auto simp: acceptedBy_def list_all_iff dest: in_set_dropD)

lemma generate_returns:
  assumes v: "isValid options"
    and a: "acceptedBy (max 91 (nat len)) tape"
    and n: "2 * nat (max len (int (length (pools options)))) - 1 \<le> length tape"
  shows "generate options len tape \<noteq> None"
proof -
  let ?B = "max 91 (nat len)"
  let ?full = "concat (pools options)"
  let ?k = "length (pools options)"
  let ?N = "nat (max len (int ?k))"
  have full: "?full \<noteq> []" using v by (rule fullCharset_nonempty)
  have k: "0 < ?k" using pools_valid [OF v] by simp
  have kN: "?k \<le> ?N" by simp
  have NB: "?N \<le> ?B" using pools_count [of options] by simp
  have pl: "\<forall>p\<in>set (pools options). 0 < length p \<and> length p \<le> ?B"
    using pools_nonempty [of options] pools_length [of options] by fastforce
  have kt: "?k \<le> length tape" using n kN k by linarith
  from pickEach_returns [OF pl a kt] obtain cs1 where
    p: "pickEach (pools options) tape = Some (cs1, drop ?k tape)" ..
  have l1: "length cs1 = ?k"
    using pickEach_picks [OF p pools_nonempty] by (simp add: list_all2_lengthD)
  let ?t1 = "drop ?k tape"
  let ?target = "max len (int (length cs1))"
  have d: "nat (?target - int (length cs1)) = ?N - ?k"
    using l1 by simp
  have f1: "0 < length ?full" using full by simp
  have f2: "length ?full \<le> ?B" using fullCharset_length [of options] by simp
  have f3: "acceptedBy ?B ?t1" using a by (rule acceptedBy_drop)
  have "?N - ?k \<le> length tape - ?k" using n kN k by arith
  then have f4: "nat (?target - int (length cs1)) \<le> length ?t1"
    using d by simp
  from fillRemaining_returns [OF f1 f2 f3 f4, of cs1] obtain cs2 where
    f: "fillRemaining ?full ?target (length cs1) cs1 ?t1 =
          Some (cs2, drop (nat (?target - int (length cs1))) ?t1)" ..
  let ?t2 = "drop (nat (?target - int (length cs1))) ?t1"
  have "int (length cs2) = max len (int ?k)"
    using fillRemaining_fills [OF f full refl] l1 by simp
  then have l2: "length cs2 = ?N" by linarith
  have s1: "length cs2 - 1 + 1 \<le> ?B" using l2 k kN NB by arith
  have s2: "acceptedBy ?B ?t2" using a by (intro acceptedBy_drop)
  have "?N - 1 \<le> length tape - ?k - (?N - ?k)" using n kN k by arith
  moreover have "length ?t2 = length tape - ?k - (?N - ?k)" using d by simp
  ultimately have s3: "length cs2 - 1 \<le> length ?t2" using l2 by simp
  from shuffle_returns [OF s1 s2 s3, of cs2] obtain cs3 where
    s: "shuffle (length cs2 - 1) cs2 ?t2 = Some (cs3, drop (length cs2 - 1) ?t2)" ..
  show ?thesis
    unfolding generate_unfold [OF v] using p f s by simp
qed

text \<open>
  Claim C6. For every request with at least one character class active: whenever
  \<^verbatim>\<open>generate\<close> returns, the password holds at least one character of each active pool,
  and its length is the requested length, or the number of active pools when the requested
  length is smaller; and \<^verbatim>\<open>generate\<close> does return when the random source delivers
  enough values (two per character of the password, less one) that no rejection loop throws
  away.
\<close>

theorem generate_coverage:
  assumes "isValid options"
  shows "(\<forall>pw tape'. generate options len tape = Some (pw, tape') \<longrightarrow>
            int (length pw) = max len (int (length (pools options))) \<and>
            (\<forall>pool\<in>set (pools options). \<exists>c\<in>set pw. c \<in> set pool)) \<and>
         (acceptedBy (max 91 (nat len)) tape \<and>
          2 * nat (max len (int (length (pools options)))) - 1 \<le> length tape \<longrightarrow>
            generate options len tape \<noteq> None)"
  using assms generate_result generate_returns by blast

lemmas generate_eval =
  generate_def pools_def sanitize_def isValid_def CHARSETS_uppercase_def CHARSETS_lowercase_def
  CHARSETS_numbers_def CHARSETS_symbols_def CHARSETS_ambiguous_def lit_def charAt_def
  fillRemaining.simps shuffle.simps upperDigits_def acceptedBy_def numeral_2_eq_2 [symmetric]

text \<open>
  Upper case and digits, length 3. With the values 1, 2, \<^verbatim>\<open>0xffffffff\<close>, 4, 5, 6 the
  picks are \<open>B\<close> and \<open>4\<close>, the third value is rejected, the fill is \<open>E\<close>, and the
  shuffle leaves \<open>4BE\<close>. With five small values nothing is rejected.
\<close>

theorem generate_coverage_witness:
  "isValid upperDigits \<and>
   generate upperDigits 3 [1, 2, 0xffffffff, 4, 5, 6] = Some (lit ''4BE'', []) \<and>
   int (length (lit ''4BE'')) = max 3 (int (length (pools upperDigits))) \<and>
   pools upperDigits = [lit ''ABCDEFGHJKLMNPQRSTUVWXYZ'', lit ''23456789''] \<and>
   0x42 \<in> set (lit ''4BE'') \<and> 0x42 \<in> set (lit ''ABCDEFGHJKLMNPQRSTUVWXYZ'') \<and>
   0x34 \<in> set (lit ''4BE'') \<and> 0x34 \<in> set (lit ''23456789'') \<and>
   acceptedBy (max 91 (nat 3)) [1, 2, 4, 5, 6] \<and>
   2 * nat (max 3 (int (length (pools upperDigits)))) - 1 \<le> length [1, 2, 4, 5, 6 :: 32 word] \<and>
   generate upperDigits 3 [1, 2, 4, 5, 6] \<noteq> None"
proof -
  have v: "isValid upperDigits" by (simp add: isValid_def upperDigits_def)
  have g: "generate upperDigits 3 [1, 2, 0xffffffff, 4, 5, 6] = Some (lit ''4BE'', [])"
    by (simp add: generate_eval)
  have a: "acceptedBy (max 91 (nat 3)) [1, 2, 4, 5, 6]"
    by (simp add: acceptedBy_def)
  have n: "2 * nat (max 3 (int (length (pools upperDigits)))) - 1 \<le> length [1, 2, 4, 5, 6 :: 32 word]"
    by (simp add: pools_def upperDigits_def)
  have p: "pools upperDigits = [lit ''ABCDEFGHJKLMNPQRSTUVWXYZ'', lit ''23456789'']"
    by (simp add: pools_def sanitize_def upperDigits_def CHARSETS_uppercase_def
        CHARSETS_numbers_def CHARSETS_ambiguous_def lit_def)
  show ?thesis
    using generate_coverage [OF v, of 3 "[1, 2, 0xffffffff, 4, 5, 6]"]
      generate_coverage [OF v, of 3 "[1, 2, 4, 5, 6]"] v g a n p
    by (simp add: lit_def)
qed

section \<open>The crypto codec: proofs\<close>

lemma checkedFields_absent:
  "field payload (lit ''v'') = None \<or> field payload (lit ''ct'') = None \<or>
   field payload (lit ''s'') = None \<or> field payload (lit ''iv'') = None \<or>
   field payload (lit ''mac'') = None \<Longrightarrow> checkedFields payload = None"
  by (auto simp: checkedFields_def)

lemma checkedFields_present:
  assumes "field payload (lit ''v'') = Some (JNum 1)"
    and "field payload (lit ''ct'') = Some (JStr ct)" and "ct \<noteq> []"
    and "field payload (lit ''s'') = Some (JStr s)" and "s \<noteq> []"
    and "field payload (lit ''iv'') = Some (JStr iv)" and "iv \<noteq> []"
    and "field payload (lit ''mac'') = Some (JStr mac)" and "mac \<noteq> []"
  shows "checkedFields payload = Some (JNum 1, JStr ct, JStr s, JStr iv, JStr mac)"
  using assms by (simp add: checkedFields_def)

lemma decryptText_checked:
  assumes "JSON_parse L packed = Some payload"
    and "checkedFields payload = Some (JNum 1, JStr ct, JStr s, JStr iv, JStr mac)"
  shows "decryptText L packed passphrase =
     (let keys = deriveKeys L passphrase (Hex_parse L s);
          expectedMac = calculateMAC L
            [Some (JStr (Number_toString L VERSION)), field payload (lit ''a''),
             Some (JStr s), Some (JStr iv), Some (JStr ct)] (snd keys)
      in if expectedMac \<noteq> mac
         then ([PBKDF2_call, HmacSHA256_call], Inl (CryptoError INTEGRITY_FAILED))
         else decryptStep L [PBKDF2_call, HmacSHA256_call] (field payload (lit ''a''))
                (JStr ct) (fst keys) (Hex_parse L iv))"
proof -
  have "payload \<noteq> JNull" using assms(2) by (auto simp: checkedFields_def)
  then show ?thesis
    using assms
    by (cases payload)
       (simp_all add: decryptText_def hexParseValue_def VERSION_def Let_def split_def)
qed

lemma decryptText_never_empty: "snd (decryptText L packed passphrase) \<noteq> Inr []"
  by (auto simp: decryptText_def decryptStep_def Let_def
      split: option.splits json.splits prod.splits mapMember.splits if_splits)

lemma decryptStep_fallback:
  "ALGO_MAP_get (propertyKey L a) = Undefined \<Longrightarrow>
   decryptStep L calls a ct encKey iv =
     decryptStep L calls (Some (JStr (lit ''AES''))) ct encKey iv"
  by (simp add: decryptStep_def propertyKey_def ALGO_MAP_get_def)

lemma decryptStep_inherited:
  "propertyKey L a \<in> set Object_prototype_keys \<Longrightarrow>
   decryptStep L calls a ct encKey iv = (calls, Inl (CryptoError DECRYPTION_FAILED))"
proof -
  assume k: "propertyKey L a \<in> set Object_prototype_keys"
  have "lit ''AES'' \<notin> set Object_prototype_keys" "lit ''DES'' \<notin> set Object_prototype_keys"
       "lit ''TripleDES'' \<notin> set Object_prototype_keys"
    by (simp_all add: Object_prototype_keys_def lit_def)
  with k have "ALGO_MAP_get (propertyKey L a) = Inherited"
    by (auto simp: ALGO_MAP_get_def)
  then show ?thesis by (simp add: decryptStep_def)
qed

text \<open>The definitions that running the codec on the small library unfolds.\<close>

lemmas demo_eval =
  demoLib_def demoPrimitives_def demo_PBKDF2_def demo_HmacSHA256_def demo_stringify_def
  demo_parse_def demo_encrypt_def demo_decrypt_def demoSalt_def demoIv_def WordArray_create_def
  lit_def envelope_def encryptText_def deriveKeys_def calculateMAC_def joinItem_def VERSION_def
  Let_def demoEnvelope_def demoEnvelopeEmpty_def demoEnvelopeNoAlgorithm_def
  demoEnvelopeConstructor_def demoEnvelopeNoCiphertext_def decryptText_def checkedFields_def
  hexParseValue_def decryptStep_def propertyKey_def ALGO_MAP_get_def Object_prototype_keys_def
  PBKDF2_ITERATIONS_def roundtripLaws_def wellFormed_def

text \<open>
  Claim C1 says that decrypting what \<^verbatim>\<open>encryptText\<close> made of a plaintext, with the
  same passphrase, gives the plaintext back, for every plaintext. \<^verbatim>\<open>decryptText\<close>
  throws on an empty plaintext (\<^verbatim>\<open>if (!plainText) throw new Error()\<close>), so the empty
  string does not come back: its envelope passes the MAC check, is decrypted, and the call
  fails with \<^verbatim>\<open>DECRYPTION_FAILED\<close>.
\<close>

theorem encrypt_decrypt_empty_counterexample:
  "encryptText demoLib [] (lit ''pw'') AES demoSalt demoIv =
     Inr (JSON_stringify demoLib demoEnvelopeEmpty) \<and>
   decryptText demoLib (JSON_stringify demoLib demoEnvelopeEmpty) (lit ''pw'') =
     ([PBKDF2_call, HmacSHA256_call, decrypt_call AES], Inl (CryptoError DECRYPTION_FAILED))"
  by (simp add: demo_eval)

text \<open>
  Nor does a plaintext or a passphrase with a lone surrogate make the round trip, with any
  library: \<^verbatim>\<open>encryptText\<close> throws before there is an envelope. And no call of
  \<^verbatim>\<open>decryptText\<close> returns the empty string.
\<close>

lemma encryptText_lone_surrogate:
  "encryptText L [0xd800] passphrase algo salt iv = Inl NativeError"
  "encryptText L text [0xd800] algo salt iv = Inl NativeError"
  by (simp_all add: encryptText_def wellFormed_def)

text \<open>
  Claim C1, amended. For every plaintext that is not empty and every passphrase, neither
  holding a lone surrogate: \<^verbatim>\<open>encryptText\<close> with \<^verbatim>\<open>'AES'\<close> returns an envelope, and
  \<^verbatim>\<open>decryptText\<close> applied to it and to the same passphrase returns the plaintext,
  provided the library reads back what it wrote for this plaintext, passphrase, salt and IV
  (\<open>roundtripLaws\<close>): \<^verbatim>\<open>JSON.parse\<close> of the envelope text gives the envelope; the
  hexadecimal texts of the salt, of the IV and of the MAC and the Base64 text of the
  ciphertext are not empty; \<^verbatim>\<open>Hex.parse\<close> and \<^verbatim>\<open>Base64.parse\<close> give the salt, the
  IV and the ciphertext back from their texts; and AES decryption of the ciphertext under
  the same key and IV gives bytes that decode to the plaintext.
\<close>

theorem encrypt_decrypt_roundtrip:
  assumes "text \<noteq> []" and "wellFormed text" and "wellFormed passphrase"
    and "roundtripLaws L text passphrase salt iv"
  shows "\<exists>packed. encryptText L text passphrase AES salt iv = Inr packed \<and>
           decryptText L packed passphrase =
             ([PBKDF2_call, HmacSHA256_call, decrypt_call AES], Inr text)"
proof -
  let ?keys = "deriveKeys L passphrase salt"
  let ?ct = "cipher_encrypt L AES text (fst ?keys) iv"
  let ?mac = "calculateMAC L
                  [Some (JStr (Number_toString L VERSION)), Some (JStr (lit ''AES'')),
                   Some (JStr (Hex_stringify L salt)), Some (JStr (Hex_stringify L iv)),
                   Some (JStr (Base64_stringify L ?ct))] (snd ?keys)"
  let ?env = "envelope L text passphrase AES salt iv"
  let ?packed = "JSON_stringify L ?env"
  have enc: "encryptText L text passphrase AES salt iv = Inr ?packed"
    using assms(2,3) by (simp add: encryptText_def)
  have env: "?env = JObj [(lit ''v'', JNum VERSION), (lit ''a'', JStr (lit ''AES'')),
               (lit ''s'', JStr (Hex_stringify L salt)), (lit ''iv'', JStr (Hex_stringify L iv)),
               (lit ''ct'', JStr (Base64_stringify L ?ct)), (lit ''mac'', JStr ?mac)]"
    by (simp add: envelope_def Let_def split_def)
  have laws:
    "JSON_parse L ?packed = Some ?env"
    "Hex_stringify L salt \<noteq> []" "Hex_stringify L iv \<noteq> []" "Base64_stringify L ?ct \<noteq> []"
    "field ?env (lit ''mac'') \<noteq> Some (JStr [])"
    "Hex_parse L (Hex_stringify L salt) = salt" "Hex_parse L (Hex_stringify L iv) = iv"
    "Base64_parse L (JStr (Base64_stringify L ?ct)) = Some ?ct"
    "\<exists>decrypted. cipher_decrypt L AES ?ct (fst ?keys) iv = Some decrypted \<and>
        Utf8_stringify L decrypted = Some text"
    using assms(4) by (auto simp: roundtripLaws_def Let_def split: option.splits)
  have fields:
    "field ?env (lit ''v'') = Some (JNum 1)"
    "field ?env (lit ''a'') = Some (JStr (lit ''AES''))"
    "field ?env (lit ''s'') = Some (JStr (Hex_stringify L salt))"
    "field ?env (lit ''iv'') = Some (JStr (Hex_stringify L iv))"
    "field ?env (lit ''ct'') = Some (JStr (Base64_stringify L ?ct))"
    "field ?env (lit ''mac'') = Some (JStr ?mac)"
    unfolding env by (simp_all add: lit_def VERSION_def)
  have mac: "?mac \<noteq> []" using laws(5) fields(6) by simp
  have chk: "checkedFields ?env = Some (JNum 1, JStr (Base64_stringify L ?ct),
      JStr (Hex_stringify L salt), JStr (Hex_stringify L iv), JStr ?mac)"
    using fields(1) fields(5) laws(4) fields(3) laws(2) fields(4) laws(3) fields(6) mac
    by (rule checkedFields_present)
  obtain decrypted where d: "cipher_decrypt L AES ?ct (fst ?keys) iv = Some decrypted"
      "Utf8_stringify L decrypted = Some text" using laws(9) by blast
  have step: "decryptStep L [PBKDF2_call, HmacSHA256_call] (Some (JStr (lit ''AES'')))
      (JStr (Base64_stringify L ?ct)) (fst ?keys) iv =
      ([PBKDF2_call, HmacSHA256_call, decrypt_call AES], Inr text)"
    using d laws(8) assms(1)
    by (simp add: decryptStep_def propertyKey_def ALGO_MAP_get_def lit_def)
  have "decryptText L ?packed passphrase =
          ([PBKDF2_call, HmacSHA256_call, decrypt_call AES], Inr text)"
    using decryptText_checked [OF laws(1) chk, of passphrase] step
    by (simp add: Let_def laws(6,7) fields(2))
  with enc show ?thesis by blast
qed

text \<open>The plaintext \<open>hi\<close> under the passphrase \<open>pw\<close>, on the small library.\<close>

theorem encrypt_decrypt_roundtrip_witness:
  "lit ''hi'' \<noteq> [] \<and> wellFormed (lit ''hi'') \<and> wellFormed (lit ''pw'') \<and>
   roundtripLaws demoLib (lit ''hi'') (lit ''pw'') demoSalt demoIv \<and>
   encryptText demoLib (lit ''hi'') (lit ''pw'') AES demoSalt demoIv =
     Inr (JSON_stringify demoLib demoEnvelope) \<and>
   decryptText demoLib (JSON_stringify demoLib demoEnvelope) (lit ''pw'') =
     ([PBKDF2_call, HmacSHA256_call, decrypt_call AES], Inr (lit ''hi''))"
proof -
  have n: "lit ''hi'' \<noteq> []" by (simp add: lit_def)
  have w: "wellFormed (lit ''hi'')" "wellFormed (lit ''pw'')"
    by (simp_all add: wellFormed_def lit_def)
  have l: "roundtripLaws demoLib (lit ''hi'') (lit ''pw'') demoSalt demoIv"
    by (simp add: demo_eval)
  have e: "encryptText demoLib (lit ''hi'') (lit ''pw'') AES demoSalt demoIv =
     Inr (JSON_stringify demoLib demoEnvelope)"
    by (simp add: demo_eval)
  show ?thesis
    using encrypt_decrypt_roundtrip [OF n w l] n w l e by simp
qed



text \<open>
  Claim C9 says that an input in which any of the six fields \<open>v\<close>, \<open>a\<close>, \<open>s\<close>,
  \<open>iv\<close>, \<open>ct\<close>, \<open>mac\<close> is absent fails with \<^verbatim>\<open>INVALID_PAYLOAD\<close>. The check of
  the source names five fields and not \<open>a\<close>: the envelope
  \<^verbatim>\<open>{"v":1,"s":"salt","iv":"ivec","ct":"ij=","mac":"1||salt|ivec|ij=#B"}\<close>, which has no
  \<open>a\<close>, is accepted, authenticated and decrypted.
\<close>

theorem decryptText_absent_algorithm_counterexample:
  "JSON_parse demoLib (JSON_stringify demoLib demoEnvelopeNoAlgorithm) =
     Some demoEnvelopeNoAlgorithm \<and>
   field demoEnvelopeNoAlgorithm (lit ''a'') = None \<and>
   decryptText demoLib (JSON_stringify demoLib demoEnvelopeNoAlgorithm) (lit ''pw'') =
     ([PBKDF2_call, HmacSHA256_call, decrypt_call AES], Inr (lit ''hi''))"
  by (simp add: demo_eval)

text \<open>
  Claim C9, amended. For every input string: if it is not parseable JSON, or any of the
  fields \<open>v\<close>, \<open>ct\<close>, \<open>s\<close>, \<open>iv\<close>, \<open>mac\<close> is absent from what it parses to,
  \<^verbatim>\<open>decryptText\<close> fails with \<^verbatim>\<open>INVALID_PAYLOAD\<close>, before any call of the library.
\<close>

theorem decryptText_invalid_payload:
  assumes "JSON_parse L packed = None \<or>
           (\<exists>payload. JSON_parse L packed = Some payload \<and>
              (field payload (lit ''v'') = None \<or> field payload (lit ''ct'') = None \<or>
               field payload (lit ''s'') = None \<or> field payload (lit ''iv'') = None \<or>
               field payload (lit ''mac'') = None))"
  shows "decryptText L packed passphrase = ([], Inl (CryptoError INVALID_PAYLOAD))"
  using assms
proof
  assume "JSON_parse L packed = None"
  then show ?thesis by (simp add: decryptText_def)
next
  assume "\<exists>payload. JSON_parse L packed = Some payload \<and>
              (field payload (lit ''v'') = None \<or> field payload (lit ''ct'') = None \<or>
               field payload (lit ''s'') = None \<or> field payload (lit ''iv'') = None \<or>
               field payload (lit ''mac'') = None)"
  then obtain payload where p: "JSON_parse L packed = Some payload"
    and "field payload (lit ''v'') = None \<or> field payload (lit ''ct'') = None \<or>
         field payload (lit ''s'') = None \<or> field payload (lit ''iv'') = None \<or>
         field payload (lit ''mac'') = None" by blast
  then have "checkedFields payload = None" by (simp add: checkedFields_absent)
  with p show ?thesis by (cases payload) (simp_all add: decryptText_def)
qed

text \<open>A text that is not JSON, and the envelope without its field \<open>ct\<close>.\<close>

theorem decryptText_invalid_payload_witness:
  "JSON_parse demoLib (lit ''kaput'') = None \<and>
   decryptText demoLib (lit ''kaput'') (lit ''pw'') = ([], Inl (CryptoError INVALID_PAYLOAD)) \<and>
   JSON_parse demoLib (JSON_stringify demoLib demoEnvelopeNoCiphertext) =
     Some demoEnvelopeNoCiphertext \<and>
   field demoEnvelopeNoCiphertext (lit ''ct'') = None \<and>
   decryptText demoLib (JSON_stringify demoLib demoEnvelopeNoCiphertext) (lit ''pw'') =
     ([], Inl (CryptoError INVALID_PAYLOAD))"
proof -
  have a: "JSON_parse demoLib (lit ''kaput'') = None" by (simp add: demo_eval)
  have b: "JSON_parse demoLib (JSON_stringify demoLib demoEnvelopeNoCiphertext) =
     Some demoEnvelopeNoCiphertext" by (simp add: demo_eval)
  have c: "field demoEnvelopeNoCiphertext (lit ''ct'') = None" by (simp add: demo_eval)
  show ?thesis
    using decryptText_invalid_payload [of demoLib "lit ''kaput''" "lit ''pw''"]
      decryptText_invalid_payload
        [of demoLib "JSON_stringify demoLib demoEnvelopeNoCiphertext" "lit ''pw''"] a b c
    by simp
qed

text \<open>
  Claim C10 says that an algorithm field that is none of \<open>AES\<close>, \<open>DES\<close>,
  \<open>TripleDES\<close> makes \<^verbatim>\<open>decryptText\<close> fall back to AES. For a field that is absent,
  or that names nothing \<^verbatim>\<open>ALGO_MAP\<close> has or inherits, it does (lemma
  \<open>decryptStep_fallback\<close>). For the name of a member that every object inherits (lemma
  \<open>decryptStep_inherited\<close>), \<^verbatim>\<open>ALGO_MAP[payload.a]\<close> is that member and not
  \<^verbatim>\<open>undefined\<close>, the fallback after \<^verbatim>\<open>||\<close> is not taken, and calling its missing
  \<^verbatim>\<open>decrypt\<close> throws inside the \<^verbatim>\<open>try\<close>. The envelope
  \<^verbatim>\<open>{"v":1,"a":"constructor","s":"salt","iv":"ivec","ct":"ij=","mac":"1|constructor|salt|ivec|ij=#B"}\<close>
  passes the MAC check and fails with \<^verbatim>\<open>DECRYPTION_FAILED\<close> without a call of the
  cipher, although AES decrypts its ciphertext to \<open>hi\<close>.
\<close>

theorem decryptText_inherited_algorithm:
  "JSON_parse demoLib (JSON_stringify demoLib demoEnvelopeConstructor) =
     Some demoEnvelopeConstructor \<and>
   field demoEnvelopeConstructor (lit ''a'') = Some (JStr (lit ''constructor'')) \<and>
   decryptText demoLib (JSON_stringify demoLib demoEnvelopeConstructor) (lit ''pw'') =
     ([PBKDF2_call, HmacSHA256_call], Inl (CryptoError DECRYPTION_FAILED)) \<and>
   decryptStep demoLib [PBKDF2_call, HmacSHA256_call] (Some (JStr (lit ''AES'')))
       (JStr (lit ''ij=''))
       (fst (deriveKeys demoLib (lit ''pw'') (Hex_parse demoLib (lit ''salt''))))
       (Hex_parse demoLib (lit ''ivec'')) =
     ([PBKDF2_call, HmacSHA256_call, decrypt_call AES], Inr (lit ''hi''))"
  by (simp add: demo_eval)

end
